theory Spec2Isabelle
  imports Main "HOL-Library.Word"
begin

section \<open>JavaScript strings\<close>

text \<open>
  A JavaScript string is a sequence of 16-bit code units; \<open>length\<close>, \<open>slice\<close>,
  \<open>startsWith\<close> and regular expressions without the \<open>u\<close> flag all work on code
  units. \<open>js\<close> writes an ASCII literal as such a sequence.
\<close>

type_synonym cu = "16 word"
type_synonym jsstring = "cu list"

definition js :: "string \<Rightarrow> jsstring" where
  "js s = map (\<lambda>c. of_nat (of_char c)) s"

definition LF :: cu where "LF = 0x0A"
definition SP :: cu where "SP = 0x20"

text \<open>
  The class \<open>\s\<close> of a regular expression, which is also what \<open>trim\<close> strips:
  the WhiteSpace and LineTerminator code points of ECMAScript (tab, line feed, vertical
  tab, form feed, carriage return, space, no-break space, U+1680, U+2000 to U+200A,
  U+2028, U+2029, U+202F, U+205F, U+3000, U+FEFF).
\<close>

definition is_space :: "cu \<Rightarrow> bool" where
  "is_space c \<longleftrightarrow>
     c = 0x09 \<or> c = 0x0A \<or> c = 0x0B \<or> c = 0x0C \<or> c = 0x0D \<or> c = 0x20 \<or> c = 0xA0 \<or>
     c = 0x1680 \<or> (0x2000 \<le> c \<and> c \<le> 0x200A) \<or> c = 0x2028 \<or> c = 0x2029 \<or>
     c = 0x202F \<or> c = 0x205F \<or> c = 0x3000 \<or> c = 0xFEFF"

text \<open>The class \<open>[.!?]\<close>.\<close>

definition is_terminator :: "cu \<Rightarrow> bool" where
  "is_terminator c \<longleftrightarrow> c = 0x2E \<or> c = 0x21 \<or> c = 0x3F"

text \<open>\<open>s.slice(i, j)\<close> for \<open>0 \<le> i \<le> j\<close>.\<close>

definition slice :: "jsstring \<Rightarrow> nat \<Rightarrow> nat \<Rightarrow> jsstring" where
  "slice s i j = take (j - i) (drop i s)"

definition startsWith :: "jsstring \<Rightarrow> jsstring \<Rightarrow> bool" where
  "startsWith s r \<longleftrightarrow> take (length r) s = r"

section \<open>\<open>String.prototype.split\<close> with a regular expression\<close>

text \<open>
  \<open>split\<close> walks the string with a sticky copy of the expression: at position \<open>q\<close> it
  tries a match that starts exactly at \<open>q\<close>. A matcher is given the code unit before
  \<open>q\<close> (for a lookbehind) and the text from \<open>q\<close> on, and returns the length of the
  match. \<open>piece\<close> is the text since the end of the last match, reversed.
  A failed match, and an empty match right at the end of the last one, advance by one
  code unit; any other match closes the piece and restarts after the match.
\<close>

type_synonym matcher = "cu option \<Rightarrow> jsstring \<Rightarrow> nat option"

function regex_split :: "matcher \<Rightarrow> cu option \<Rightarrow> jsstring \<Rightarrow> jsstring \<Rightarrow> jsstring list" where
  "regex_split m prev piece [] = [rev piece]"
| "regex_split m prev piece (c # cs) =
     (case m prev (c # cs) of
        None \<Rightarrow> regex_split m (Some c) (c # piece) cs
      | Some n \<Rightarrow>
          if n = 0 \<and> piece = [] then regex_split m (Some c) (c # piece) cs
          else rev piece #
               regex_split m (if n = 0 then prev else Some (last (take n (c # cs)))) []
                 (drop n (c # cs)))"
  by pat_completeness auto
termination
  by (relation "measure (\<lambda>(m, prev, piece, s). 2 * length s + (if piece = [] then 0 else 1))")
     auto

text \<open>
  \<open>/\n\s*\n/\<close> at the start of \<open>s\<close>: a line feed, then the longest run of \<open>\s\<close> that
  still leaves a line feed to end on. Since a line feed is itself in \<open>\s\<close>, the match
  ends at the last line feed of the whitespace run that follows the first one.
\<close>

fun last_lf :: "jsstring \<Rightarrow> nat option" where
  "last_lf [] = None"
| "last_lf (c # cs) =
     (case last_lf cs of
        Some j \<Rightarrow> Some (Suc j)
      | None \<Rightarrow> if c = LF then Some 0 else None)"

definition match_blank_line :: matcher where
  "match_blank_line prev s =
     (case s of
        [] \<Rightarrow> None
      | c # cs \<Rightarrow>
          if c = LF then
            (case last_lf (takeWhile is_space cs) of
               None \<Rightarrow> None
             | Some j \<Rightarrow> Some (j + 2))
          else None)"

text \<open>\<open>/(?<=[.!?])\s+/\<close>: after one of \<open>.!?\<close>, the whole whitespace run, at least one.\<close>

definition match_sentence_gap :: matcher where
  "match_sentence_gap prev s =
     (case prev of
        None \<Rightarrow> None
      | Some p \<Rightarrow>
          if is_terminator p \<and> takeWhile is_space s \<noteq> []
          then Some (length (takeWhile is_space s)) else None)"

definition split_paragraphs :: "jsstring \<Rightarrow> jsstring list" where
  "split_paragraphs text = regex_split match_blank_line None [] text"

definition split_sentences :: "jsstring \<Rightarrow> jsstring list" where
  "split_sentences paragraph = regex_split match_sentence_gap None [] paragraph"

section \<open>The chunker (\<open>createChunks\<close> of utils.js)\<close>

text \<open>
  \<open>maxChunkSize\<close> is a number of code units, a natural number here.
  The innermost loop, \<open>for (let i = 0; i < sentence.length; i += maxChunkSize)\<close>, does
  not end when \<open>maxChunkSize\<close> is 0, so it is a partial function; \<open>None\<close> is "does not
  return". The loops around it pass that on.
\<close>

partial_function (option) slice_loop ::
  "nat \<Rightarrow> jsstring \<Rightarrow> nat \<Rightarrow> jsstring list \<Rightarrow> jsstring list option" where
  "slice_loop maxChunkSize sentence i chunks =
     (if i < length sentence
      then slice_loop maxChunkSize sentence (i + maxChunkSize)
             (chunks @ [slice sentence i (i + maxChunkSize)])
      else Some chunks)"

declare slice_loop.simps [code]

text \<open>
  The loop over the sentences of one oversized paragraph. The state is the shared
  \<open>chunks\<close> array and \<open>sentenceChunk\<close>.
\<close>

fun sentence_loop ::
  "nat \<Rightarrow> jsstring list \<Rightarrow> jsstring list \<times> jsstring \<Rightarrow> (jsstring list \<times> jsstring) option" where
  "sentence_loop maxChunkSize [] st = Some st"
| "sentence_loop maxChunkSize (sentence # rest) (chunks, sentenceChunk) =
     (if length sentenceChunk + length sentence > maxChunkSize then
        (let (chunks1, sentenceChunk1) =
               (if length sentenceChunk > 0 then (chunks @ [sentenceChunk], [])
                else (chunks, sentenceChunk))
         in if length sentence > maxChunkSize then
              (case slice_loop maxChunkSize sentence 0 chunks1 of
                 None \<Rightarrow> None
               | Some chunks2 \<Rightarrow> sentence_loop maxChunkSize rest (chunks2, sentenceChunk1))
            else sentence_loop maxChunkSize rest (chunks1, sentence))
      else sentence_loop maxChunkSize rest
             (chunks, sentenceChunk @ (if sentenceChunk \<noteq> [] then [SP] else []) @ sentence))"

text \<open>The loop over the paragraphs; the state is \<open>chunks\<close> and \<open>currentChunk\<close>.\<close>

fun paragraph_loop ::
  "nat \<Rightarrow> jsstring list \<Rightarrow> jsstring list \<times> jsstring \<Rightarrow> (jsstring list \<times> jsstring) option" where
  "paragraph_loop maxChunkSize [] st = Some st"
| "paragraph_loop maxChunkSize (paragraph # rest) (chunks, currentChunk) =
     (if length currentChunk + length paragraph + 2 > maxChunkSize then
        (let (chunks1, currentChunk1) =
               (if length currentChunk > 0 then (chunks @ [currentChunk], [])
                else (chunks, currentChunk))
         in if length paragraph > maxChunkSize then
              (case sentence_loop maxChunkSize (split_sentences paragraph) (chunks1, []) of
                 None \<Rightarrow> None
               | Some (chunks2, sentenceChunk) \<Rightarrow>
                   paragraph_loop maxChunkSize rest
                     (if length sentenceChunk > 0 then chunks2 @ [sentenceChunk] else chunks2,
                      currentChunk1))
            else paragraph_loop maxChunkSize rest (chunks1, paragraph))
      else paragraph_loop maxChunkSize rest
             (chunks, currentChunk @ (if currentChunk \<noteq> [] then [LF, LF] else []) @ paragraph))"

definition createChunks :: "jsstring \<Rightarrow> nat \<Rightarrow> jsstring list option" where
  "createChunks text maxChunkSize =
     (if length text \<le> maxChunkSize then Some [text]
      else
        (case paragraph_loop maxChunkSize (split_paragraphs text) ([], []) of
           None \<Rightarrow> None
         | Some (chunks, currentChunk) \<Rightarrow>
             Some (if length currentChunk > 0 then chunks @ [currentChunk] else chunks)))"

section \<open>The robots rules (parseRobotsTxt and isDisallowed)\<close>

text \<open>
  What the code throws. \<open>InvalidURL\<close> is the \<open>Error\<close> of an unparsable start
  address; \<open>TypeError\<close> is what the runtime raises on \<open>new URL\<close> of an unparsable
  string, on reading a property of \<open>undefined\<close> and on calling what is not a function.
\<close>

datatype js_error = TypeError | InvalidURL jsstring

text \<open>
  \<open>new URL(s)\<close> is the runtime's; the model takes it as a parameter
  \<open>parseURL\<close>, \<open>None\<close> where the constructor throws. Of the parsed object the code
  reads three fields.
\<close>

record url_obj =
  protocol :: jsstring
  hostname :: jsstring
  pathname :: jsstring

text \<open>
  The rules object is \<open>{}\<close> until a robots file has been parsed, and
  \<open>{allow: {...}, disallow: {...}}\<close> after; each of the two is an object from agent
  token to array of path prefixes.
\<close>

record robots_rules =
  allow :: "(jsstring \<rightharpoonup> jsstring list) option"
  disallow :: "(jsstring \<rightharpoonup> jsstring list) option"

definition empty_rules :: robots_rules where
  "empty_rules = \<lparr>allow = None, disallow = None\<rparr>"

text \<open>
  \<open>toLowerCase\<close> on the letters A to Z. The code compares lower-cased text with
  ASCII keywords only (\<open>user-agent:\<close>, \<open>allow:\<close>, \<open>disallow:\<close>, the task names);
  the only other code units whose lower case begins with an ASCII letter are U+212A,
  which gives \<open>k\<close>, a letter of no keyword, and U+0130, which gives \<open>i\<close> followed by
  U+0307, which no keyword has after an \<open>i\<close>. So these comparisons come out the same.
\<close>

definition lower_cu :: "cu \<Rightarrow> cu" where
  "lower_cu c = (if 0x41 \<le> c \<and> c \<le> 0x5A then c + 0x20 else c)"

definition toLowerCase :: "jsstring \<Rightarrow> jsstring" where
  "toLowerCase s = map lower_cu s"

definition trim :: "jsstring \<Rightarrow> jsstring" where
  "trim s = rev (dropWhile is_space (rev (dropWhile is_space s)))"

text \<open>\<open>s.split('\n')\<close>; \<open>piece\<close> is the current line, reversed.\<close>

fun split_lines :: "jsstring \<Rightarrow> jsstring \<Rightarrow> jsstring list" where
  "split_lines piece [] = [rev piece]"
| "split_lines piece (c # cs) =
     (if c = LF then rev piece # split_lines [] cs else split_lines (c # piece) cs)"

text \<open>
  \<open>line.split(':')[1]\<close>: the text between the first and the second colon. It is read
  only from lines that begin with a keyword ending in a colon, so the element exists.
\<close>

definition COLON :: cu where "COLON = 0x3A"

definition after_colon :: "jsstring \<Rightarrow> jsstring" where
  "after_colon line = takeWhile (\<lambda>c. c \<noteq> COLON) (tl (dropWhile (\<lambda>c. c \<noteq> COLON) line))"

text \<open>
  The objects \<open>rules.allow\<close> and \<open>rules.disallow\<close> are plain objects, so a lookup of a
  key they do not own falls through to \<open>Object.prototype\<close>: for the twelve names below
  it finds a function (or the prototype itself), which is truthy and has no \<open>push\<close>.
\<close>

definition inherited_key :: "jsstring \<Rightarrow> bool" where
  "inherited_key k \<longleftrightarrow>
     k \<in> set [js ''constructor'', js ''__proto__'', js ''hasOwnProperty'', js ''isPrototypeOf'',
              js ''propertyIsEnumerable'', js ''toLocaleString'', js ''toString'', js ''valueOf'',
              js ''__defineGetter__'', js ''__defineSetter__'', js ''__lookupGetter__'',
              js ''__lookupSetter__'']"

text \<open>\<open>if (!obj[agent]) obj[agent] = [];\<close>\<close>

definition ensure_agent :: "(jsstring \<rightharpoonup> jsstring list) \<Rightarrow> jsstring \<Rightarrow> (jsstring \<rightharpoonup> jsstring list)" where
  "ensure_agent obj agent =
     (case obj agent of
        Some paths \<Rightarrow> obj
      | None \<Rightarrow> if inherited_key agent then obj else obj(agent \<mapsto> []))"

text \<open>\<open>if (!obj[agent]) obj[agent] = []; obj[agent].push(path);\<close>\<close>

definition push_rule ::
  "(jsstring \<rightharpoonup> jsstring list) \<Rightarrow> jsstring \<Rightarrow> jsstring \<Rightarrow> js_error + (jsstring \<rightharpoonup> jsstring list)" where
  "push_rule obj agent path =
     (case obj agent of
        Some paths \<Rightarrow> Inr (obj(agent \<mapsto> paths @ [path]))
      | None \<Rightarrow> if inherited_key agent then Inl TypeError else Inr (obj(agent \<mapsto> [path])))"

record parser_state =
  allow_rules :: "jsstring \<rightharpoonup> jsstring list"
  disallow_rules :: "jsstring \<rightharpoonup> jsstring list"
  currentUserAgent :: jsstring

text \<open>The body of the loop over the lines.\<close>

definition parse_line :: "jsstring \<Rightarrow> parser_state \<Rightarrow> js_error + parser_state" where
  "parse_line line st =
     (let trimmedLine = trim line in
      if startsWith trimmedLine (js ''#'') \<or> trimmedLine = [] then Inr st
      else if startsWith (toLowerCase trimmedLine) (js ''user-agent:'') then
        (let agent = trim (after_colon trimmedLine) in
         Inr \<lparr>allow_rules = ensure_agent (allow_rules st) agent,
              disallow_rules = ensure_agent (disallow_rules st) agent,
              currentUserAgent = agent\<rparr>)
      else if startsWith (toLowerCase trimmedLine) (js ''allow:'') then
        (case push_rule (allow_rules st) (currentUserAgent st) (trim (after_colon trimmedLine)) of
           Inl e \<Rightarrow> Inl e
         | Inr obj \<Rightarrow> Inr (st\<lparr>allow_rules := obj\<rparr>))
      else if startsWith (toLowerCase trimmedLine) (js ''disallow:'') then
        (case push_rule (disallow_rules st) (currentUserAgent st) (trim (after_colon trimmedLine)) of
           Inl e \<Rightarrow> Inl e
         | Inr obj \<Rightarrow> Inr (st\<lparr>disallow_rules := obj\<rparr>))
      else Inr st)"

fun parse_lines :: "jsstring list \<Rightarrow> parser_state \<Rightarrow> js_error + parser_state" where
  "parse_lines [] st = Inr st"
| "parse_lines (line # rest) st =
     (case parse_line line st of
        Inl e \<Rightarrow> Inl e
      | Inr st' \<Rightarrow> parse_lines rest st')"

definition WILDCARD :: jsstring where "WILDCARD = js ''*''"

definition initial_parser_state :: parser_state where
  "initial_parser_state =
     \<lparr>allow_rules = Map.empty, disallow_rules = Map.empty, currentUserAgent = WILDCARD\<rparr>"

definition parseRobotsTxt :: "jsstring \<Rightarrow> js_error + robots_rules" where
  "parseRobotsTxt robotsTxt =
     (case parse_lines (split_lines [] robotsTxt) initial_parser_state of
        Inl e \<Rightarrow> Inl e
      | Inr st \<Rightarrow> Inr \<lparr>allow = Some (allow_rules st), disallow = Some (disallow_rules st)\<rparr>)"

text \<open>\<open>for (const rule of rules) if (path.startsWith(rule)) return ...\<close>\<close>

fun some_rule_matches :: "jsstring \<Rightarrow> jsstring list \<Rightarrow> bool" where
  "some_rule_matches path [] = False"
| "some_rule_matches path (rule # rest) =
     (if startsWith path rule then True else some_rule_matches path rest)"

text \<open>\<open>obj['*'] || []\<close>\<close>

definition wildcard_rules :: "(jsstring \<rightharpoonup> jsstring list) \<Rightarrow> jsstring list" where
  "wildcard_rules obj = (case obj WILDCARD of None \<Rightarrow> [] | Some paths \<Rightarrow> paths)"

text \<open>
  Everything in \<open>isDisallowed\<close> is inside one \<open>try\<close> whose \<open>catch\<close> returns
  \<open>false\<close>: an unparsable address, and the \<open>TypeError\<close> of reading \<open>['*']\<close> from a
  missing \<open>disallow\<close> or \<open>allow\<close>, both end there.
\<close>

definition isDisallowed :: "(jsstring \<Rightarrow> url_obj option) \<Rightarrow> jsstring \<Rightarrow> robots_rules \<Rightarrow> bool" where
  "isDisallowed parseURL u rules =
     (case parseURL u of
        None \<Rightarrow> False
      | Some urlObj \<Rightarrow>
          (case disallow rules of
             None \<Rightarrow> False
           | Some dis \<Rightarrow>
               (case allow rules of
                  None \<Rightarrow> False
                | Some alw \<Rightarrow>
                    if some_rule_matches (pathname urlObj) (wildcard_rules alw) then False
                    else if some_rule_matches (pathname urlObj) (wildcard_rules dis) then True
                    else False)))"

section \<open>The crawl (crawlWebsite)\<close>

text \<open>
  The options the loop reads. \<open>depth\<close> and \<open>maxPages\<close> are counts; \<open>selector\<close> and
  \<open>waitTime\<close> are handed to the browser only.
\<close>

record crawl_options =
  depth :: nat
  maxPages :: nat
  respectRobotsTxt :: bool

text \<open>
  One entry of \<open>results\<close>, and what the browser gives for one page: the values of
  \<open>page.title()\<close>, the two \<open>page.evaluate\<close> calls and \<open>page.content()\<close>, and the
  clock at the \<open>push\<close>.
\<close>

record page_record =
  url :: jsstring
  title :: jsstring
  description :: jsstring
  content :: jsstring
  html :: jsstring
  crawledAt :: jsstring

record rendered =
  pageTitle :: jsstring
  metaDescription :: jsstring
  innerText :: jsstring
  pageHtml :: jsstring
  clock :: jsstring

text \<open>
  The outcome of the \<open>try\<close> block for one address. \<open>RenderError\<close>: a call before
  \<open>results.push\<close> threw (navigation, timeout, evaluation). \<open>Rendered p anchors\<close>: the
  page was read; \<open>anchors\<close> is what the \<open>page.evaluate\<close> of \<open>extractLinks\<close> returns
  (the resolved \<open>href\<close> of every anchor, unresolvable ones dropped), or \<open>None\<close> if
  that call throws. The \<open>catch\<close> logs either failure and the loop goes on.
  Launching the browser, opening a page and closing it are taken to succeed.
\<close>

datatype render_outcome = RenderError | Rendered rendered "jsstring list option"

record web =
  parseURL :: "jsstring \<Rightarrow> url_obj option"
  render :: "jsstring \<Rightarrow> render_outcome"
  fetch_text :: "jsstring \<Rightarrow> jsstring option"

text \<open>\<open>[...new Set(links)]\<close>: the first occurrence of each link, in order.\<close>

fun dedupe :: "jsstring list \<Rightarrow> jsstring list \<Rightarrow> jsstring list" where
  "dedupe seen [] = seen"
| "dedupe seen (l # ls) = dedupe (if l \<in> set seen then seen else seen @ [l]) ls"

definition extractLinks :: "jsstring list \<Rightarrow> jsstring list" where
  "extractLinks anchors = dedupe [] anchors"

text \<open>
  The state of the loop: \<open>queue\<close>, \<open>visited\<close> (a \<open>Set\<close>, kept in insertion order) and
  \<open>results\<close>, and \<open>thrown\<close> for an exception that leaves the loop. Two more fields
  are a trace and not variables of the code: \<open>fetched\<close> logs every \<open>page.goto(url)\<close>
  with the depth of the entry, \<open>expanded\<close> every call of \<open>extractLinks\<close>.
\<close>

record crawl_state =
  queue :: "(jsstring \<times> nat) list"
  visited :: "jsstring list"
  results :: "page_record list"
  thrown :: "js_error option"
  fetched :: "(jsstring \<times> nat) list"
  expanded :: "(jsstring \<times> nat) list"

definition set_add :: "jsstring list \<Rightarrow> jsstring \<Rightarrow> jsstring list" where
  "set_add s x = (if x \<in> set s then s else s @ [x])"

text \<open>One pass through the body of \<open>while (queue.length > 0 && results.length < maxPages)\<close>.\<close>

definition crawl_step ::
  "web \<Rightarrow> crawl_options \<Rightarrow> url_obj \<Rightarrow> robots_rules \<Rightarrow> crawl_state \<Rightarrow> crawl_state" where
  "crawl_step w opts baseUrl robotsRules st =
     (case queue st of
        [] \<Rightarrow> st
      | (u, currentDepth) # rest \<Rightarrow>
          let st1 = st\<lparr>queue := rest\<rparr> in
          if u \<in> set (visited st1) then st1
          else if respectRobotsTxt opts \<and> isDisallowed (parseURL w) u robotsRules then st1
          else
            (case parseURL w u of
               None \<Rightarrow> st1\<lparr>thrown := Some TypeError\<rparr>
             | Some urlObj \<Rightarrow>
                 if hostname urlObj \<noteq> hostname baseUrl then st1
                 else
                   let st2 = st1\<lparr>visited := set_add (visited st1) u,
                                 fetched := fetched st1 @ [(u, currentDepth)]\<rparr>
                   in
                   (case render w u of
                      RenderError \<Rightarrow> st2
                    | Rendered p anchors \<Rightarrow>
                        let st3 = st2\<lparr>results := results st2 @
                                     [\<lparr>url = u, title = pageTitle p,
                                       description = metaDescription p, content = innerText p,
                                       html = pageHtml p, crawledAt = clock p\<rparr>]\<rparr>
                        in
                        if currentDepth < depth opts then
                          (let st4 = st3\<lparr>expanded := expanded st3 @ [(u, currentDepth)]\<rparr> in
                           case anchors of
                             None \<Rightarrow> st4
                           | Some hrefs \<Rightarrow>
                               st4\<lparr>queue := queue st4 @
                                     map (\<lambda>link. (link, currentDepth + 1))
                                       (filter (\<lambda>link. link \<notin> set (visited st4))
                                          (extractLinks hrefs))\<rparr>)
                        else st3)))"

definition continuing :: "crawl_options \<Rightarrow> crawl_state \<Rightarrow> bool" where
  "continuing opts st \<longleftrightarrow>
     queue st \<noteq> [] \<and> length (results st) < maxPages opts \<and> thrown st = None"

function crawl_loop ::
  "web \<Rightarrow> crawl_options \<Rightarrow> url_obj \<Rightarrow> robots_rules \<Rightarrow> crawl_state \<Rightarrow> crawl_state" where
  "crawl_loop w opts baseUrl robotsRules st =
     (if continuing opts st
      then crawl_loop w opts baseUrl robotsRules (crawl_step w opts baseUrl robotsRules st)
      else st)"
  by pat_completeness auto
termination
proof (relation "inv_image
          (measures [\<lambda>(opts, s). maxPages opts - length (results s), \<lambda>(opts, s). length (queue s)])
          (\<lambda>(w, opts, baseUrl, robotsRules, st). (opts, st))")
  show "wf (inv_image
          (measures [\<lambda>(opts, s). maxPages opts - length (results s), \<lambda>(opts, s). length (queue s)])
          (\<lambda>(w, opts, baseUrl, robotsRules, st). (opts, st)))"
    by simp
next
  fix w opts baseUrl robotsRules st
  assume c: "continuing opts st"
  then obtain u k rest where q: "queue st = (u, k) # rest"
    by (cases "queue st") (auto simp: continuing_def)
  from c have lt: "length (results st) < maxPages opts"
    by (simp add: continuing_def)
  from q lt
  show "((w, opts, baseUrl, robotsRules, crawl_step w opts baseUrl robotsRules st),
         (w, opts, baseUrl, robotsRules, st))
        \<in> inv_image
          (measures [\<lambda>(opts, s). maxPages opts - length (results s), \<lambda>(opts, s). length (queue s)])
          (\<lambda>(w, opts, baseUrl, robotsRules, st). (opts, st))"
    by (auto simp: crawl_step_def Let_def split: option.splits render_outcome.splits)
qed

definition initial_state :: "jsstring \<Rightarrow> crawl_state" where
  "initial_state startUrl =
     \<lparr>queue = [(startUrl, 0)], visited = [], results = [], thrown = None,
      fetched = [], expanded = []\<rparr>"

text \<open>
  The rules the loop runs with: \<open>{}\<close> unless robots are respected and the file could
  be fetched and parsed (any exception there is caught and leaves \<open>{}\<close>).
\<close>

definition load_robots :: "web \<Rightarrow> crawl_options \<Rightarrow> url_obj \<Rightarrow> robots_rules" where
  "load_robots w opts baseUrl =
     (if respectRobotsTxt opts then
        (case fetch_text w (protocol baseUrl @ js ''//'' @ hostname baseUrl @ js ''/robots.txt'') of
           None \<Rightarrow> empty_rules
         | Some text \<Rightarrow>
             (case parseRobotsTxt text of
                Inl e \<Rightarrow> empty_rules
              | Inr rules \<Rightarrow> rules))
      else empty_rules)"

text \<open>The state in which the loop ends, for a start address that parsed to \<open>baseUrl\<close>.\<close>

definition crawl_run :: "web \<Rightarrow> jsstring \<Rightarrow> crawl_options \<Rightarrow> url_obj \<Rightarrow> crawl_state" where
  "crawl_run w startUrl opts baseUrl =
     crawl_loop w opts baseUrl (load_robots w opts baseUrl) (initial_state startUrl)"

definition crawlWebsite :: "web \<Rightarrow> jsstring \<Rightarrow> crawl_options \<Rightarrow> js_error + page_record list" where
  "crawlWebsite w startUrl opts =
     (case parseURL w startUrl of
        None \<Rightarrow> Inl (InvalidURL startUrl)
      | Some baseUrl \<Rightarrow>
          (let final = crawl_run w startUrl opts baseUrl in
           case thrown final of
             Some e \<Rightarrow> Inl e
           | None \<Rightarrow> Inr (results final)))"

section \<open>The synthesis pipeline (processText)\<close>

text \<open>
  \<open>anthropicClient.messages.create\<close> followed by \<open>completion.content[0].text\<close>, as
  the \<open>try\<close> blocks see it: the text, or the message of the error thrown. The service
  is outside the program and may answer differently each time, so the answer depends on
  the number of the call (from 0) as well as on the prompt.
\<close>

type_synonym generator = "nat \<Rightarrow> jsstring \<Rightarrow> jsstring + jsstring"

record process_options =
  task :: jsstring
  model :: jsstring

record synthesis_meta =
  meta_model :: jsstring
  processedAt :: jsstring
  pagesProcessed :: nat
  chunksProcessed :: nat

text \<open>
  The two shapes of object that \<open>processText\<close> returns: \<open>{error, originalResults}\<close>
  and \<open>{task, result, meta, originalResults}\<close>.
\<close>

datatype process_result =
  Skipped jsstring "page_record list"
| Synthesis jsstring jsstring synthesis_meta "page_record list"

text \<open>\<open>array.join(sep)\<close>\<close>

fun join :: "jsstring \<Rightarrow> jsstring list \<Rightarrow> jsstring" where
  "join sep [] = []"
| "join sep [x] = x"
| "join sep (x # y # ys) = x @ sep @ join sep (y # ys)"

text \<open>A number inside a template literal: its decimal digits.\<close>

fun decimal :: "nat \<Rightarrow> jsstring" where
  "decimal n = (if n < 10 then [0x30 + of_nat n] else decimal (n div 10) @ [0x30 + of_nat (n mod 10)])"

definition page_block :: "page_record \<Rightarrow> jsstring" where
  "page_block page =
     js ''## Page: '' @ title page @ js '' ('' @ url page @ js '')'' @ [LF, LF] @
     content page @ [LF, LF]"

definition combinedText :: "page_record list \<Rightarrow> jsstring" where
  "combinedText crawlResults = join ([LF] @ js ''---'' @ [LF, LF]) (map page_block crawlResults)"

text \<open>The \<open>switch (task.toLowerCase())\<close> that builds the prompt for one chunk.\<close>

definition chunk_prompt :: "jsstring \<Rightarrow> jsstring \<Rightarrow> jsstring" where
  "chunk_prompt t chunk =
     (if toLowerCase t = js ''summarize'' then
        js ''Please provide a comprehensive summary of the following web content. Focus on the main points, key information, and overall themes:'' @
        [LF, LF] @ chunk @ [LF, LF] @
        js ''Provide a well-structured summary with key points, important details, and main conclusions.''
      else if toLowerCase t = js ''extract'' then
        js ''Please extract all factual information from the following web content:'' @
        [LF, LF] @ chunk @ [LF, LF] @
        js ''Format the information as a list of verified facts found in the content.''
      else if toLowerCase t = js ''analyze'' then
        js ''Please analyze the following web content:'' @
        [LF, LF] @ chunk @ [LF, LF] @
        js ''Provide:'' @ [LF] @
        js ''1. Main topic overview'' @ [LF] @
        js ''2. Key arguments or claims made'' @ [LF] @
        js ''3. Evidence presented'' @ [LF] @
        js ''4. Logical fallacies or biases (if any)'' @ [LF] @
        js ''5. Quality assessment of the information'' @ [LF] @
        js ''6. Connections between concepts'' @ [LF] @
        js ''7. Areas where information might be missing''
      else if toLowerCase t = js ''questions'' then
        js ''Based on the following web content:'' @
        [LF, LF] @ chunk @ [LF, LF] @
        js ''Generate 10 important questions that someone might have after reading this content, along with detailed answers based solely on the information provided.''
      else
        js ''Please '' @ t @ js '' the following web content:'' @ [LF, LF] @ chunk)"

definition combining_prompt :: "jsstring \<Rightarrow> jsstring" where
  "combining_prompt finalResult =
     js ''You've analyzed multiple chunks of web content and provided separate analyses. Please combine and synthesize these separate analyses into a single coherent response:'' @
     [LF, LF] @ finalResult @ [LF, LF] @
     js ''Provide a unified, well-structured response that combines all the information without repetition.''"

text \<open>What the \<open>catch\<close> of the loop pushes for chunk number \<open>n\<close> (from 1).\<close>

definition error_placeholder :: "nat \<Rightarrow> jsstring \<Rightarrow> jsstring" where
  "error_placeholder n message =
     js ''[Error processing chunk '' @ decimal n @ js '': '' @ message @ js '']''"

text \<open>\<open>for (let i = 0; i < chunks.length; i++)\<close>, one call of the service per chunk.\<close>

function process_chunks ::
  "generator \<Rightarrow> jsstring \<Rightarrow> jsstring list \<Rightarrow> nat \<Rightarrow> jsstring list \<Rightarrow> jsstring list" where
  "process_chunks gen t chunks i processedChunks =
     (if i < length chunks then
        process_chunks gen t chunks (i + 1)
          (processedChunks @
             [case gen i (chunk_prompt t (chunks ! i)) of
                Inr text \<Rightarrow> text
              | Inl message \<Rightarrow> error_placeholder (i + 1) message])
      else processedChunks)"
  by pat_completeness auto
termination
  by (relation "measure (\<lambda>(gen, t, chunks, i, processedChunks). length chunks - i)") auto

text \<open>
  The rest of \<open>processText\<close> after the chunks are made: the loop, the join, and the
  combining call when there is more than one output. The result is \<open>finalResult\<close>.
\<close>

definition synthesize :: "generator \<Rightarrow> jsstring \<Rightarrow> jsstring list \<Rightarrow> jsstring" where
  "synthesize gen t chunks =
     (let processedChunks = process_chunks gen t chunks 0 [];
          finalResult = join [LF, LF] processedChunks
      in if length processedChunks > 1 then
           (case gen (length chunks) (combining_prompt finalResult) of
              Inr text \<Rightarrow> text
            | Inl message \<Rightarrow> finalResult)
         else finalResult)"

text \<open>
  \<open>client\<close> is \<open>anthropicClient\<close>: \<open>None\<close> when no API key is configured (or the
  constructor threw). \<open>now\<close> is the clock at the return. \<open>None\<close> as a result is
  "does not return", which \<open>createChunks\<close> could in principle pass on.
\<close>

definition processText ::
  "generator option \<Rightarrow> jsstring \<Rightarrow> page_record list \<Rightarrow> process_options \<Rightarrow> process_result option" where
  "processText client now crawlResults options =
     (case client of
        None \<Rightarrow> Some (Skipped (js ''Anthropic API key not configured'') crawlResults)
      | Some gen \<Rightarrow>
          (case createChunks (combinedText crawlResults) 100000 of
             None \<Rightarrow> None
           | Some chunks \<Rightarrow>
               Some (Synthesis (task options) (synthesize gen (task options) chunks)
                       \<lparr>meta_model = model options, processedAt = now,
                        pagesProcessed = length crawlResults,
                        chunksProcessed = length chunks\<rparr>
                       crawlResults)))"

section \<open>Notions used in the properties\<close>

text \<open>The text without its whitespace: what must survive the chunking.\<close>

definition non_whitespace :: "jsstring \<Rightarrow> jsstring" where
  "non_whitespace s = filter (\<lambda>c. \<not> is_space c) s"

text \<open>
  The split points. \<open>regex_cut\<close> is \<open>regex_split\<close> once more, step for step, except
  that it keeps with every piece the text of the match that precedes it (what \<open>split\<close>
  with a capturing group would return); \<open>gap\<close> is the match before the current piece.
\<close>

function regex_cut ::
  "matcher \<Rightarrow> cu option \<Rightarrow> jsstring \<Rightarrow> jsstring \<Rightarrow> jsstring \<Rightarrow> (jsstring \<times> jsstring) list" where
  "regex_cut m prev gap piece [] = [(gap, rev piece)]"
| "regex_cut m prev gap piece (c # cs) =
     (case m prev (c # cs) of
        None \<Rightarrow> regex_cut m (Some c) gap (c # piece) cs
      | Some n \<Rightarrow>
          if n = 0 \<and> piece = [] then regex_cut m (Some c) gap (c # piece) cs
          else (gap, rev piece) #
               regex_cut m (if n = 0 then prev else Some (last (take n (c # cs))))
                 (take n (c # cs)) [] (drop n (c # cs)))"
  by pat_completeness auto
termination
  by (relation "measure (\<lambda>(m, prev, gap, piece, s). 2 * length s + (if piece = [] then 0 else 1))")
     auto

text \<open>
  The pieces that \<open>createChunks(text, maxChunkSize)\<close> moves around, in order, each with
  the split match in front of it: the paragraphs of the text, and in place of a
  paragraph longer than \<open>maxChunkSize\<close> its sentences (the first sentence then stands
  behind the match that precedes the paragraph). The kind says which of the two
  expressions matched.
\<close>

datatype split_kind = Blank_line | Sentence_gap

datatype atom = Atom (kind_of: split_kind) (gap_of: jsstring) (piece_of: jsstring)

definition paragraph_atoms :: "nat \<Rightarrow> jsstring \<Rightarrow> jsstring \<Rightarrow> atom list" where
  "paragraph_atoms maxChunkSize gap paragraph =
     (if length paragraph > maxChunkSize then
        (case regex_cut match_sentence_gap None gap [] paragraph of
           [] \<Rightarrow> []
         | (g, s) # rest \<Rightarrow> Atom Blank_line g s # map (\<lambda>(g', s'). Atom Sentence_gap g' s') rest)
      else [Atom Blank_line gap paragraph])"

definition atoms :: "jsstring \<Rightarrow> nat \<Rightarrow> atom list" where
  "atoms text maxChunkSize =
     concat (map (\<lambda>(gap, paragraph). paragraph_atoms maxChunkSize gap paragraph)
               (regex_cut match_blank_line None [] [] text))"

text \<open>
  The text that a list of atoms was cut from: every match followed by its piece. And
  the atoms joined again with a list of separators instead of the matches.
\<close>

definition source_of :: "atom list \<Rightarrow> jsstring" where
  "source_of as = concat (map (\<lambda>a. gap_of a @ piece_of a) as)"

definition rejoin :: "atom list \<Rightarrow> jsstring list \<Rightarrow> jsstring" where
  "rejoin as seps = concat (map (\<lambda>(a, sep). sep @ piece_of a) (zip as seps))"

text \<open>
  Whitespace normalisation at a split point: the match is dropped, or, if there is a
  match, it is replaced by the separator of its kind, a blank line between paragraphs
  and a space between sentences.
\<close>

definition sep_ok :: "atom \<Rightarrow> jsstring \<Rightarrow> bool" where
  "sep_ok a sep \<longleftrightarrow>
     sep = [] \<or>
     (gap_of a \<noteq> [] \<and> sep = (case kind_of a of Blank_line \<Rightarrow> [LF, LF] | Sentence_gap \<Rightarrow> [SP]))"

text \<open>A matcher that matches whitespace only, at least one code unit, inside the text it is given.\<close>

definition gap_matcher :: "matcher \<Rightarrow> bool" where
  "gap_matcher m \<longleftrightarrow>
     (\<forall>prev s n. m prev s = Some n \<longrightarrow>
        0 < n \<and> n \<le> length s \<and> (\<forall>c\<in>set (take n s). is_space c))"

text \<open>
  \<open>joinable k acc as\<close>: every atom stands behind a match of kind \<open>k\<close>, except possibly
  the first, and that only if the accumulator \<open>acc\<close> is empty.
\<close>

fun joinable :: "split_kind \<Rightarrow> jsstring \<Rightarrow> atom list \<Rightarrow> bool" where
  "joinable k acc [] = True"
| "joinable k acc (a # rest) =
     ((acc \<noteq> [] \<longrightarrow> kind_of a = k \<and> gap_of a \<noteq> []) \<and>
      (\<forall>b\<in>set rest. kind_of b = k \<and> gap_of b \<noteq> []))"

text \<open>
  A parser for the examples. On an address \<open>http://host/path\<close> or
  \<open>https://host/path\<close> in lower case, with no port, query or fragment, it gives the
  fields that \<open>new URL\<close> gives; everything else it rejects.
\<close>

definition SLASH :: cu where "SLASH = 0x2F"

definition example_parseURL :: "jsstring \<Rightarrow> url_obj option" where
  "example_parseURL u =
     (let scheme =
            (if startsWith u (js ''https://'') then Some (js ''https:'', drop 8 u)
             else if startsWith u (js ''http://'') then Some (js ''http:'', drop 7 u)
             else None)
      in case scheme of
           None \<Rightarrow> None
         | Some (proto, rest) \<Rightarrow>
             (let host = takeWhile (\<lambda>c. c \<noteq> SLASH) rest;
                  path = dropWhile (\<lambda>c. c \<noteq> SLASH) rest
              in if host = [] then None
                 else Some \<lparr>protocol = proto, hostname = host,
                            pathname = (if path = [] then js ''/'' else path)\<rparr>))"

text \<open>
  An address passes the two tests that stand between the queue and the browser: the
  robots check and the comparison of host names.
\<close>

definition admitted :: "web \<Rightarrow> crawl_options \<Rightarrow> url_obj \<Rightarrow> robots_rules \<Rightarrow> jsstring \<Rightarrow> bool" where
  "admitted w opts baseUrl robotsRules u \<longleftrightarrow>
     \<not> (respectRobotsTxt opts \<and> isDisallowed (parseURL w) u robotsRules) \<and>
     (case parseURL w u of None \<Rightarrow> False | Some urlObj \<Rightarrow> hostname urlObj = hostname baseUrl)"

text \<open>
  Where an entry \<open>(u, k)\<close> comes from: it is the start address at depth 0, or \<open>u\<close> is
  a link of a page whose links were extracted at depth \<open>k - 1\<close>.
\<close>

definition child_of :: "web \<Rightarrow> jsstring \<Rightarrow> (jsstring \<times> nat) list \<Rightarrow> jsstring \<Rightarrow> nat \<Rightarrow> bool" where
  "child_of w seed fs u k \<longleftrightarrow>
     (k = 0 \<and> u = seed) \<or>
     (\<exists>v j p hrefs. k = Suc j \<and> (v, j) \<in> set fs \<and> render w v = Rendered p (Some hrefs) \<and> u \<in> set hrefs)"

text \<open>What every pass through the loop keeps true.\<close>

definition trace_inv ::
  "web \<Rightarrow> crawl_options \<Rightarrow> url_obj \<Rightarrow> robots_rules \<Rightarrow> jsstring \<Rightarrow> crawl_state \<Rightarrow> bool" where
  "trace_inv w opts baseUrl robotsRules seed st \<longleftrightarrow>
     visited st = map fst (fetched st) \<and> distinct (visited st) \<and>
     (\<forall>(u, k)\<in>set (fetched st). admitted w opts baseUrl robotsRules u \<and> k \<le> depth opts) \<and>
     (\<forall>(u, k)\<in>set (expanded st). k < depth opts \<and> (u, k) \<in> set (fetched st)) \<and>
     (\<forall>(u, k)\<in>set (queue st). k \<le> depth opts) \<and>
     (\<forall>(u, k)\<in>set (queue st) \<union> set (fetched st). child_of w seed (expanded st) u k) \<and>
     length (results st) \<le> maxPages opts \<and> distinct (map url (results st)) \<and>
     set (map url (results st)) \<subseteq> set (visited st) \<and>
     (\<forall>(u, k)\<in>set (fetched st). render w u \<noteq> RenderError \<longrightarrow> u \<in> set (map url (results st)))"

text \<open>
  The breadth-first order: the queue is sorted by depth and spans at most two levels,
  nothing fetched is deeper than anything queued, the start address is queued, fetched
  or not admitted, and every link of a page expanded at depth \<open>j\<close> has been fetched at
  depth at most \<open>j + 1\<close>, or is not admitted, or waits in the queue at depth \<open>j + 1\<close>.
\<close>

definition bfs_inv ::
  "web \<Rightarrow> crawl_options \<Rightarrow> url_obj \<Rightarrow> robots_rules \<Rightarrow> jsstring \<Rightarrow> crawl_state \<Rightarrow> bool" where
  "bfs_inv w opts baseUrl robotsRules seed st \<longleftrightarrow>
     (thrown st = None \<longrightarrow>
      sorted (map snd (queue st)) \<and>
      (\<forall>(u, k)\<in>set (queue st). \<forall>(v, j)\<in>set (fetched st). j \<le> k) \<and>
      (\<forall>(u, k)\<in>set (queue st). \<forall>(v, j)\<in>set (queue st). k \<le> Suc j) \<and>
      ((seed, 0) \<in> set (queue st) \<or> (seed, 0) \<in> set (fetched st) \<or>
       \<not> admitted w opts baseUrl robotsRules seed) \<and>
      (\<forall>(v, j)\<in>set (fetched st). j < depth opts \<longrightarrow>
         (\<forall>p hrefs. render w v = Rendered p (Some hrefs) \<longrightarrow>
            (\<forall>u\<in>set hrefs. (\<exists>k\<le>Suc j. (u, k) \<in> set (fetched st)) \<or>
                            \<not> admitted w opts baseUrl robotsRules u \<or>
                            (u, Suc j) \<in> set (queue st)))))"

text \<open>
  The addresses a crawl can discover, level by level: the start address at level 0, and
  at each further level within the depth the links of the admitted pages of the level
  before whose links could be read. A discoverable page is an address of some level
  that is admitted and that the browser can render.
\<close>

definition links_of ::
  "web \<Rightarrow> crawl_options \<Rightarrow> url_obj \<Rightarrow> robots_rules \<Rightarrow> jsstring \<Rightarrow> jsstring list" where
  "links_of w opts baseUrl robotsRules v =
     (if admitted w opts baseUrl robotsRules v then
        (case render w v of
           RenderError \<Rightarrow> []
         | Rendered p anchors \<Rightarrow> (case anchors of None \<Rightarrow> [] | Some hrefs \<Rightarrow> hrefs))
      else [])"

fun level ::
  "web \<Rightarrow> crawl_options \<Rightarrow> url_obj \<Rightarrow> robots_rules \<Rightarrow> jsstring \<Rightarrow> nat \<Rightarrow> jsstring list" where
  "level w opts baseUrl robotsRules seed 0 = [seed]"
| "level w opts baseUrl robotsRules seed (Suc j) =
     (if j < depth opts
      then concat (map (links_of w opts baseUrl robotsRules) (level w opts baseUrl robotsRules seed j))
      else [])"

definition discoverable ::
  "web \<Rightarrow> crawl_options \<Rightarrow> url_obj \<Rightarrow> robots_rules \<Rightarrow> jsstring \<Rightarrow> jsstring \<Rightarrow> bool" where
  "discoverable w opts baseUrl robotsRules seed u \<longleftrightarrow>
     list_ex (\<lambda>k. u \<in> set (level w opts baseUrl robotsRules seed k)) [0..<Suc (depth opts)] \<and>
     admitted w opts baseUrl robotsRules u \<and> render w u \<noteq> RenderError"

text \<open>
  \<open>extractLinks\<close> returns the \<open>href\<close> of \<open>new URL(a.href, base)\<close>, the serialisation
  of a parsed address, so on a real page every link parses.
\<close>

definition links_parse :: "web \<Rightarrow> bool" where
  "links_parse w \<longleftrightarrow>
     (\<forall>v p hrefs. render w v = Rendered p (Some hrefs) \<longrightarrow> (\<forall>u\<in>set hrefs. parseURL w u \<noteq> None))"

text \<open>The origin in the sense of the specification: scheme and host.\<close>

definition origin_in_spec :: "url_obj \<Rightarrow> jsstring \<times> jsstring" where
  "origin_in_spec urlObj = (protocol urlObj, hostname urlObj)"

text \<open>\<open>s.includes(t)\<close>: \<open>t\<close> occurs in \<open>s\<close> at some position.\<close>

definition contains_text :: "jsstring \<Rightarrow> jsstring \<Rightarrow> bool" where
  "contains_text s t \<longleftrightarrow> list_ex (\<lambda>i. startsWith (drop i s) t) [0..<Suc (length s)]"

text \<open>What the loop of \<open>processText\<close> pushes for chunk \<open>i\<close> (from 0).\<close>

definition chunk_output :: "generator \<Rightarrow> jsstring \<Rightarrow> jsstring list \<Rightarrow> nat \<Rightarrow> jsstring" where
  "chunk_output gen t chunks i =
     (case gen i (chunk_prompt t (chunks ! i)) of
        Inr text \<Rightarrow> text
      | Inl message \<Rightarrow> error_placeholder (i + 1) message)"

section \<open>Examples\<close>

text \<open>Three robots files, and the options and start address of a crawl of \<open>https://site/\<close>.\<close>

definition robots_private :: jsstring where
  "robots_private = js ''User-agent: *'' @ [LF] @ js ''Disallow: /private''"

definition robots_empty_disallow :: jsstring where
  "robots_empty_disallow = js ''User-agent: *'' @ [LF] @ js ''Allow: /pub'' @ [LF] @ js ''Disallow:''"

definition robots_inherited_agent :: jsstring where
  "robots_inherited_agent =
     js ''Disallow:'' @ [LF] @ js ''User-agent: constructor'' @ [LF] @ js ''Disallow: /x''"

definition site_options :: crawl_options where
  "site_options = \<lparr>depth = 1, maxPages = 100, respectRobotsTxt = True\<rparr>"

definition site_base :: url_obj where
  "site_base = \<lparr>protocol = js ''https:'', hostname = js ''site'', pathname = js ''/''\<rparr>"

text \<open>A site whose robots file is the third one.\<close>

definition web_inherited_agent :: web where
  "web_inherited_agent =
     \<lparr>parseURL = example_parseURL, render = (\<lambda>u. RenderError),
      fetch_text = (\<lambda>u. if u = js ''https://site/robots.txt'' then Some robots_inherited_agent else None)\<rparr>"

text \<open>
  Three sites. In the first the start page links to the same host under another scheme
  and to another host; the second is a chain of four pages; in the third the page \<open>c\<close>
  is linked from both \<open>a\<close> and \<open>b\<close>, and \<open>a\<close> from the start page and from \<open>b\<close>.
\<close>

definition example_page :: rendered where
  "example_page =
     \<lparr>pageTitle = js ''title'', metaDescription = [], innerText = js ''text'',
      pageHtml = js ''<html></html>'', clock = js ''2024-01-01T00:00:00.000Z''\<rparr>"

definition web_mixed :: web where
  "web_mixed =
     \<lparr>parseURL = example_parseURL,
      render = (\<lambda>u. if u = js ''https://site/''
                     then Rendered example_page (Some [js ''http://site/x'', js ''https://other/y''])
                     else Rendered example_page (Some [])),
      fetch_text = (\<lambda>u. None)\<rparr>"

definition web_chain :: web where
  "web_chain =
     \<lparr>parseURL = example_parseURL,
      render = (\<lambda>u. if u = js ''https://site/'' then Rendered example_page (Some [js ''https://site/a''])
                     else if u = js ''https://site/a'' then Rendered example_page (Some [js ''https://site/b''])
                     else if u = js ''https://site/b'' then Rendered example_page (Some [js ''https://site/c''])
                     else if u = js ''https://site/c'' then Rendered example_page (Some [])
                     else RenderError),
      fetch_text = (\<lambda>u. None)\<rparr>"

definition web_diamond :: web where
  "web_diamond =
     \<lparr>parseURL = example_parseURL,
      render = (\<lambda>u. if u = js ''https://site/''
                     then Rendered example_page (Some [js ''https://site/a'', js ''https://site/b''])
                     else if u = js ''https://site/a'' then Rendered example_page (Some [js ''https://site/c''])
                     else if u = js ''https://site/b''
                     then Rendered example_page (Some [js ''https://site/c'', js ''https://site/a''])
                     else if u = js ''https://site/c'' then Rendered example_page (Some [])
                     else RenderError),
      fetch_text = (\<lambda>u. None)\<rparr>"

text \<open>
  A site whose home page links to itself, as home pages do. The page is served under
  the address as typed, \<open>https://site\<close>, and under its normal form \<open>https://site/\<close>,
  which is what the \<open>href\<close> of the link reads.
\<close>

definition web_home :: web where
  "web_home =
     \<lparr>parseURL = example_parseURL,
      render = (\<lambda>u. if u = js ''https://site'' \<or> u = js ''https://site/''
                     then Rendered example_page (Some [js ''https://site/''])
                     else RenderError),
      fetch_text = (\<lambda>u. None)\<rparr>"

text \<open>The third site crawled two levels deep with a ceiling of three pages.\<close>

definition diamond_options :: crawl_options where
  "diamond_options = \<lparr>depth = 2, maxPages = 3, respectRobotsTxt = True\<rparr>"

text \<open>
  Three chunks and two behaviours of the service: both fail on the second call; the
  first answers the combining call (the fourth), the second fails on it too.
\<close>

definition three_chunks :: "jsstring list" where
  "three_chunks = [js ''one'', js ''two'', js ''three'']"

definition gen_second_fails :: generator where
  "gen_second_fails i prompt =
     (if i = 0 then Inr (js ''first'')
      else if i = 1 then Inl (js ''overloaded'')
      else if i = 2 then Inr (js ''third'')
      else Inr (js ''merged''))"

definition gen_combine_fails :: generator where
  "gen_combine_fails i prompt =
     (if i = 0 then Inr (js ''first'')
      else if i = 1 then Inl (js ''overloaded'')
      else if i = 2 then Inr (js ''third'')
      else Inl (js ''overloaded''))"

section \<open>Properties of the chunker\<close>

lemma non_whitespace_append [simp]: "non_whitespace (a @ b) = non_whitespace a @ non_whitespace b"
  by (simp add: non_whitespace_def)

lemma non_whitespace_Nil [simp]: "non_whitespace [] = []"
  by (simp add: non_whitespace_def)

lemma is_space_LF [simp]: "is_space LF"
  by (simp add: is_space_def LF_def)

lemma is_space_SP [simp]: "is_space SP"
  by (simp add: is_space_def SP_def)


text \<open>The pieces of \<open>regex_cut\<close> are the result of \<open>split\<close>, and the matches and pieces together are the text.\<close>

lemma regex_cut_pieces:
  "map snd (regex_cut m prev gap piece s) = regex_split m prev piece s"
  by (induction m prev gap piece s rule: regex_cut.induct)
     (auto split: option.splits simp del: take_Suc_Cons drop_Suc_Cons)


lemma regex_cut_gaps:
  "gap_matcher m \<Longrightarrow>
   \<exists>p0 rest. regex_cut m prev gap piece s = (gap, p0) # rest \<and>
             (\<forall>(g, p)\<in>set rest. g \<noteq> [] \<and> (\<forall>c\<in>set g. is_space c))"
proof (induction m prev gap piece s rule: regex_cut.induct)
  case (1 m prev gap piece)
  show ?case by simp
next
  case (2 m prev gap piece c cs)
  note gm = \<open>gap_matcher m\<close>
  show ?case
  proof (cases "m prev (c # cs)")
    case None
    from "2.IH"(1) [OF None gm] None show ?thesis by simp
  next
    case (Some n)
    from gm Some have n: "0 < n" "n \<le> length (c # cs)"
      and sp: "\<forall>x\<in>set (take n (c # cs)). is_space x"
      unfolding gap_matcher_def by blast+
    from n have F: "\<not> (n = 0 \<and> piece = [])" by simp
    from "2.IH"(3) [OF Some F gm] obtain p0 rest where
      r: "regex_cut m (if n = 0 then prev else Some (last (take n (c # cs))))
            (take n (c # cs)) [] (drop n (c # cs)) = (take n (c # cs), p0) # rest"
      and g: "\<forall>(g, p)\<in>set rest. g \<noteq> [] \<and> (\<forall>c\<in>set g. is_space c)"
      by blast
    from Some n(1) r have
      "regex_cut m prev gap piece (c # cs) = (gap, rev piece) # (take n (c # cs), p0) # rest"
      by (simp del: take_Suc_Cons drop_Suc_Cons)
    moreover from n have "take n (c # cs) \<noteq> []" by (cases n) auto
    with sp g have "\<forall>(g, p)\<in>set ((take n (c # cs), p0) # rest). g \<noteq> [] \<and> (\<forall>c\<in>set g. is_space c)"
      by (simp del: take_Suc_Cons)
    ultimately show ?thesis by blast
  qed
qed

lemma rejoin_Nil [simp]: "rejoin [] seps = []"
  by (simp add: rejoin_def)

lemma rejoin_Cons [simp]: "rejoin (a # as) (sep # seps) = sep @ piece_of a @ rejoin as seps"
  by (simp add: rejoin_def)

lemma rejoin_append:
  "length as = length seps \<Longrightarrow> rejoin (as @ bs) (seps @ seps') = rejoin as seps @ rejoin bs seps'"
  by (simp add: rejoin_def)

lemma source_of_Nil [simp]: "source_of [] = []"
  by (simp add: source_of_def)

lemma source_of_append [simp]: "source_of (as @ bs) = source_of as @ source_of bs"
  by (simp add: source_of_def)

lemma joinable_rest: "joinable k acc (a # rest) \<Longrightarrow> joinable k acc' rest"
  by (cases rest) auto

lemma slice_loop_returns:
  "0 < M \<Longrightarrow> \<exists>r. slice_loop M s i chunks = Some (chunks @ r) \<and> concat r = drop i s"
proof (induction "length s - i" arbitrary: i chunks rule: less_induct)
  case less
  show ?case
  proof (cases "i < length s")
    case False
    then show ?thesis by (subst slice_loop.simps) simp
  next
    case True
    with less.prems have "length s - (i + M) < length s - i" by arith
    from less.hyps [OF this less.prems, of "chunks @ [slice s i (i + M)]"]
    obtain r where r: "slice_loop M s (i + M) (chunks @ [slice s i (i + M)])
                        = Some ((chunks @ [slice s i (i + M)]) @ r)"
      and c: "concat r = drop (i + M) s" by blast
    have "take M (drop i s) @ drop (i + M) s = drop i s"
      by (metis add.commute append_take_drop_id drop_drop)
    with c have "concat (slice s i (i + M) # r) = drop i s"
      by (simp add: slice_def)
    moreover from True r have "slice_loop M s i chunks = Some (chunks @ slice s i (i + M) # r)"
      by (subst slice_loop.simps) simp
    ultimately show ?thesis by blast
  qed
qed

lemma last_lf_bound: "last_lf s = Some j \<Longrightarrow> j < length s"
  by (induction s arbitrary: j) (auto split: option.splits if_splits)

lemma gap_matcher_blank_line: "gap_matcher match_blank_line"
  unfolding gap_matcher_def
proof (intro allI impI)
  fix prev s n
  assume m: "match_blank_line prev s = Some n"
  then obtain c cs j where s: "s = c # cs" and c: "c = LF"
    and j: "last_lf (takeWhile is_space cs) = Some j" and n: "n = j + 2"
    by (auto simp: match_blank_line_def split: list.splits if_splits option.splits)
  from last_lf_bound [OF j] have jl: "j < length (takeWhile is_space cs)" .
  have le: "length (takeWhile is_space cs) \<le> length cs" by (rule length_takeWhile_le)
  have "take (Suc j) cs = take (Suc j) (takeWhile is_space cs @ dropWhile is_space cs)"
    by simp
  also have "\<dots> = take (Suc j) (takeWhile is_space cs)"
    using jl by (simp del: takeWhile_dropWhile_id)
  finally have "set (take (Suc j) cs) \<subseteq> set (takeWhile is_space cs)"
    by (metis set_take_subset)
  then have "\<forall>x\<in>set (take (Suc j) cs). is_space x"
    by (auto dest: set_takeWhileD)
  with s c n jl le show "0 < n \<and> n \<le> length s \<and> (\<forall>c\<in>set (take n s). is_space c)"
    by auto
qed

lemma gap_matcher_sentence_gap: "gap_matcher match_sentence_gap"
  unfolding gap_matcher_def
proof (intro allI impI)
  fix prev s n
  assume m: "match_sentence_gap prev s = Some n"
  then have n: "n = length (takeWhile is_space s)" and ne: "takeWhile is_space s \<noteq> []"
    by (auto simp: match_sentence_gap_def split: option.splits if_splits)
  have "take n s = take n (takeWhile is_space s @ dropWhile is_space s)" by simp
  also have "\<dots> = takeWhile is_space s" using n by (simp del: takeWhile_dropWhile_id)
  finally have "take n s = takeWhile is_space s" .
  then show "0 < n \<and> n \<le> length s \<and> (\<forall>c\<in>set (take n s). is_space c)"
    using n ne by (auto dest: set_takeWhileD simp: length_takeWhile_le)
qed


lemma paragraph_atoms_short:
  "\<not> M < length p \<Longrightarrow> paragraph_atoms M g p = [Atom Blank_line g p]"
  by (simp add: paragraph_atoms_def)

lemma paragraph_atoms_long:
  assumes "M < length p"
  shows "\<exists>s0 rest. paragraph_atoms M g p =
            Atom Blank_line g s0 # map (\<lambda>(g', s'). Atom Sentence_gap g' s') rest \<and>
          regex_cut match_sentence_gap None g [] p = (g, s0) # rest \<and>
          (\<forall>(g', s')\<in>set rest. g' \<noteq> [] \<and> (\<forall>c\<in>set g'. is_space c))"
proof -
  from regex_cut_gaps [OF gap_matcher_sentence_gap, of None g "[]" p] obtain s0 rest where
    r: "regex_cut match_sentence_gap None g [] p = (g, s0) # rest"
    and g: "\<forall>(g', s')\<in>set rest. g' \<noteq> [] \<and> (\<forall>c\<in>set g'. is_space c)"
    by blast
  from assms r have "paragraph_atoms M g p =
      Atom Blank_line g s0 # map (\<lambda>(g', s'). Atom Sentence_gap g' s') rest"
    by (simp add: paragraph_atoms_def)
  with r g show ?thesis by blast
qed

lemma paragraph_atoms_pieces:
  "M < length p \<Longrightarrow> map piece_of (paragraph_atoms M g p) = split_sentences p"
proof -
  assume "M < length p"
  from paragraph_atoms_long [OF this, of g] obtain s0 rest where
    a: "paragraph_atoms M g p = Atom Blank_line g s0 # map (\<lambda>(g', s'). Atom Sentence_gap g' s') rest"
    and r: "regex_cut match_sentence_gap None g [] p = (g, s0) # rest"
    by blast
  have "split_sentences p = map snd (regex_cut match_sentence_gap None g [] p)"
    by (simp only: split_sentences_def regex_cut_pieces)
  also have "\<dots> = s0 # map snd rest" by (simp add: r)
  also have "\<dots> = map piece_of (paragraph_atoms M g p)"
    by (simp add: a split_def comp_def)
  finally show ?thesis by simp
qed

lemma paragraph_atoms_joinable:
  "M < length p \<Longrightarrow> joinable Sentence_gap [] (paragraph_atoms M g p)"
proof -
  assume "M < length p"
  from paragraph_atoms_long [OF this, of g] obtain s0 rest where
    a: "paragraph_atoms M g p = Atom Blank_line g s0 # map (\<lambda>(g', s'). Atom Sentence_gap g' s') rest"
    and g: "\<forall>(g', s')\<in>set rest. g' \<noteq> [] \<and> (\<forall>c\<in>set g'. is_space c)"
    by blast
  from g show ?thesis by (auto simp: a)
qed



lemma sentence_loop_atoms:
  "0 < M \<Longrightarrow> joinable Sentence_gap sc as \<Longrightarrow>
   \<exists>chunks' sc' seps. sentence_loop M (map piece_of as) (chunks, sc) = Some (chunks', sc') \<and>
      list_all2 sep_ok as seps \<and>
      concat chunks' @ sc' = (concat chunks @ sc) @ rejoin as seps"
proof (induction as arbitrary: chunks sc)
  case Nil
  then show ?case by simp
next
  case (Cons a as)
  note pos = \<open>0 < M\<close>
  from Cons.prems(2) have ne: "sc \<noteq> [] \<longrightarrow> kind_of a = Sentence_gap \<and> gap_of a \<noteq> []"
    by simp
  have step: "\<exists>chunks' sc' seps.
      sentence_loop M (map piece_of as) (chunks1, sc1) = Some (chunks', sc') \<and>
      list_all2 sep_ok (a # as) seps \<and>
      concat chunks' @ sc' = (concat chunks @ sc) @ rejoin (a # as) seps"
    if e: "concat chunks1 @ sc1 = (concat chunks @ sc) @ sep @ piece_of a" and ok: "sep_ok a sep"
    for chunks1 sc1 sep
  proof -
    from Cons.IH [OF pos joinable_rest [OF Cons.prems(2)], of chunks1 sc1]
    obtain chunks' sc' seps where
      r: "sentence_loop M (map piece_of as) (chunks1, sc1) = Some (chunks', sc')"
      and l: "list_all2 sep_ok as seps"
      and c: "concat chunks' @ sc' = (concat chunks1 @ sc1) @ rejoin as seps"
      by blast
    from l ok have "list_all2 sep_ok (a # as) (sep # seps)" by simp
    moreover from c e have "concat chunks' @ sc' = (concat chunks @ sc) @ rejoin (a # as) (sep # seps)"
      by simp
    ultimately show ?thesis using r by blast
  qed
  show ?case
  proof (cases "length sc + length (piece_of a) > M")
    case False
    have "sep_ok a (if sc \<noteq> [] then [SP] else [])"
      using ne by (simp add: sep_ok_def)
    from step [of chunks "sc @ (if sc \<noteq> [] then [SP] else []) @ piece_of a", OF _ this]
    show ?thesis using False by auto
  next
    case over: True
    define chunks1 where "chunks1 = (if length sc > 0 then chunks @ [sc] else chunks)"
    have c1: "concat chunks1 = concat chunks @ sc" by (simp add: chunks1_def)
    have ok: "sep_ok a []" by (simp add: sep_ok_def)
    show ?thesis
    proof (cases "length (piece_of a) > M")
      case False
      from step [of chunks1 "piece_of a" "[]", OF _ ok] c1
      show ?thesis using False over by (auto simp: chunks1_def)
    next
      case True
      from slice_loop_returns [OF pos, of "piece_of a" 0 chunks1]
      obtain r where r: "slice_loop M (piece_of a) 0 chunks1 = Some (chunks1 @ r)"
        and cr: "concat r = piece_of a"
        by auto
      from step [of "chunks1 @ r" "[]" "[]", OF _ ok] c1 cr r
      show ?thesis using True over by (auto simp: chunks1_def)
    qed
  qed
qed

lemma paragraph_loop_atoms:
  "0 < M \<Longrightarrow> joinable Blank_line cur (map (\<lambda>(g, p). Atom Blank_line g p) gps) \<Longrightarrow>
   \<exists>chunks' cur' seps. paragraph_loop M (map snd gps) (chunks, cur) = Some (chunks', cur') \<and>
      list_all2 sep_ok (concat (map (\<lambda>(g, p). paragraph_atoms M g p) gps)) seps \<and>
      concat chunks' @ cur' =
        (concat chunks @ cur) @ rejoin (concat (map (\<lambda>(g, p). paragraph_atoms M g p) gps)) seps"
proof (induction gps arbitrary: chunks cur)
  case Nil
  then show ?case by simp
next
  case (Cons gp gps)
  obtain g p where gp: "gp = (g, p)" by (cases gp)
  note pos = \<open>0 < M\<close>
  let ?A = "paragraph_atoms M g p"
  let ?B = "concat (map (\<lambda>(g, p). paragraph_atoms M g p) gps)"
  from Cons.prems(2) gp have ne: "cur \<noteq> [] \<longrightarrow> g \<noteq> []" by simp
  from Cons.prems(2) gp have rest: "joinable Blank_line cur1 (map (\<lambda>(g, p). Atom Blank_line g p) gps)"
    for cur1
    using joinable_rest [of Blank_line cur "Atom Blank_line g p" "map (\<lambda>(g, p). Atom Blank_line g p) gps" cur1]
    by simp
  have step: "\<exists>chunks' cur' seps.
      paragraph_loop M (map snd gps) (chunks1, cur1) = Some (chunks', cur') \<and>
      list_all2 sep_ok (?A @ ?B) seps \<and>
      concat chunks' @ cur' = (concat chunks @ cur) @ rejoin (?A @ ?B) seps"
    if l1: "list_all2 sep_ok ?A seps1"
      and e: "concat chunks1 @ cur1 = (concat chunks @ cur) @ rejoin ?A seps1"
    for chunks1 cur1 seps1
  proof -
    from Cons.IH [OF pos rest, of chunks1 cur1]
    obtain chunks' cur' seps where
      r: "paragraph_loop M (map snd gps) (chunks1, cur1) = Some (chunks', cur')"
      and l: "list_all2 sep_ok ?B seps"
      and c: "concat chunks' @ cur' = (concat chunks1 @ cur1) @ rejoin ?B seps"
      by blast
    from l1 l have "list_all2 sep_ok (?A @ ?B) (seps1 @ seps)" by (rule list_all2_appendI)
    moreover from list_all2_lengthD [OF l1] have "rejoin (?A @ ?B) (seps1 @ seps) = rejoin ?A seps1 @ rejoin ?B seps"
      by (rule rejoin_append)
    with c e have "concat chunks' @ cur' = (concat chunks @ cur) @ rejoin (?A @ ?B) (seps1 @ seps)"
      by simp
    ultimately show ?thesis using r by blast
  qed
  have goal: "?case" if "\<exists>chunks' cur' seps.
      paragraph_loop M (map snd (gp # gps)) (chunks, cur) = Some (chunks', cur') \<and>
      list_all2 sep_ok (?A @ ?B) seps \<and>
      concat chunks' @ cur' = (concat chunks @ cur) @ rejoin (?A @ ?B) seps"
    using that by (simp add: gp)
  show ?case
  proof (cases "length cur + length p + 2 > M")
    case False
    then have short: "\<not> M < length p" by simp
    have ok: "list_all2 sep_ok ?A [if cur \<noteq> [] then [LF, LF] else []]"
      using ne by (simp add: paragraph_atoms_short [OF short] sep_ok_def)
    from step [OF ok, of chunks "cur @ (if cur \<noteq> [] then [LF, LF] else []) @ p"]
    show ?thesis using False by (intro goal) (auto simp: gp paragraph_atoms_short [OF short])
  next
    case over: True
    define chunks1 where "chunks1 = (if length cur > 0 then chunks @ [cur] else chunks)"
    have c1: "concat chunks1 = concat chunks @ cur" by (simp add: chunks1_def)
    show ?thesis
    proof (cases "length p > M")
      case False
      have ok: "list_all2 sep_ok ?A [[]]"
        by (simp add: paragraph_atoms_short [OF False] sep_ok_def)
      from step [OF ok, of chunks1 p] c1
      show ?thesis using False over
        by (intro goal) (auto simp: gp chunks1_def paragraph_atoms_short [OF False])
    next
      case True
      from sentence_loop_atoms [OF pos paragraph_atoms_joinable [OF True], of g chunks1]
      obtain chunks2 sc seps1 where
        r: "sentence_loop M (split_sentences p) (chunks1, []) = Some (chunks2, sc)"
        and l1: "list_all2 sep_ok ?A seps1"
        and c: "concat chunks2 @ sc = (concat chunks1 @ []) @ rejoin ?A seps1"
        unfolding paragraph_atoms_pieces [OF True] by blast
      define chunks3 where "chunks3 = (if length sc > 0 then chunks2 @ [sc] else chunks2)"
      have "concat chunks3 @ [] = concat chunks2 @ sc" by (simp add: chunks3_def)
      with c c1 have "concat chunks3 @ [] = (concat chunks @ cur) @ rejoin ?A seps1" by simp
      from step [OF l1 this] r
      show ?thesis using True over
        by (intro goal) (auto simp: gp chunks1_def chunks3_def)
    qed
  qed
qed




lemma createChunks_atoms:
  assumes "0 < M" and "M < length T"
  shows "\<exists>cs seps. createChunks T M = Some cs \<and> list_all2 sep_ok (atoms T M) seps \<and>
           concat cs = rejoin (atoms T M) seps"
proof -
  from regex_cut_gaps [OF gap_matcher_blank_line, of None "[]" "[]" T] obtain p0 rest where
    r: "regex_cut match_blank_line None [] [] T = ([], p0) # rest"
    and g: "\<forall>(g, p)\<in>set rest. g \<noteq> [] \<and> (\<forall>c\<in>set g. is_space c)"
    by blast
  let ?gps = "regex_cut match_blank_line None [] [] T"
  from g have "joinable Blank_line [] (map (\<lambda>(g, p). Atom Blank_line g p) ?gps)"
    by (auto simp: r)
  from paragraph_loop_atoms [OF assms(1) this, of "[]"]
  obtain chunks cur seps where
    l: "paragraph_loop M (split_paragraphs T) ([], []) = Some (chunks, cur)"
    and ok: "list_all2 sep_ok (atoms T M) seps"
    and c: "concat chunks @ cur = rejoin (atoms T M) seps"
    unfolding atoms_def split_paragraphs_def regex_cut_pieces by auto
  from assms(2) l c ok show ?thesis
    by (auto simp: createChunks_def)
qed

lemma createChunks_returns: "0 < M \<Longrightarrow> \<exists>cs. createChunks T M = Some cs"
  using createChunks_atoms [of M T] by (cases "M < length T") (auto simp: createChunks_def)

text \<open>
  C1. The claim is that every chunk of \<open>createChunks(T, M)\<close> has length at most \<open>M\<close>.
  The sentence loop tests \<open>sentenceChunk.length + sentence.length > maxChunkSize\<close> and
  then joins the two with a space that the test did not count (the paragraph loop
  counts its separator: \<open>+ 2\<close>). On the text \<open>a. b.\<close>, of length 5, with limit 4, the
  only chunk is the whole text.
\<close>

theorem createChunks_chunk_over_limit:
  "createChunks (js ''a. b.'') 4 = Some [js ''a. b.''] \<and> length (js ''a. b.'') = 5"
  by code_simp



section \<open>Properties of the synthesis pipeline\<close>

text \<open>
  C9. Without a client, \<open>processText\<close> returns (it does not throw) the object
  \<open>{error: 'Anthropic API key not configured', originalResults}\<close> with the page records
  it was given; with a client it always returns the other shape, with \<open>task\<close>,
  \<open>result\<close> and \<open>meta\<close>, so the two cannot be confused.
\<close>

theorem processText_without_client:
  "processText None now crawlResults options =
     Some (Skipped (js ''Anthropic API key not configured'') crawlResults) \<and>
   (\<forall>gen. \<exists>r m. processText (Some gen) now crawlResults options =
              Some (Synthesis (task options) r m crawlResults))"
proof -
  obtain cs where "createChunks (combinedText crawlResults) 100000 = Some cs"
    using createChunks_returns [of 100000 "combinedText crawlResults"] by auto
  then show ?thesis by (simp add: processText_def)
qed

section \<open>Properties of the robots rules\<close>

lemma some_rule_matches_iff:
  "some_rule_matches path rules \<longleftrightarrow> (\<exists>r\<in>set rules. startsWith path r)"
  by (induction rules) auto

lemma startsWith_Nil [simp]: "startsWith s []"
  by (simp add: startsWith_def)

lemma startsWith_ConsD: "startsWith s (r # rs) \<Longrightarrow> s \<noteq> [] \<and> hd s = r"
  by (cases s) (auto simp: startsWith_def)

lemma isDisallowed_iff:
  "isDisallowed parse u rules \<longleftrightarrow>
     (\<exists>urlObj dis alw. parse u = Some urlObj \<and> disallow rules = Some dis \<and> allow rules = Some alw \<and>
        (\<exists>r\<in>set (wildcard_rules dis). startsWith (pathname urlObj) r) \<and>
        (\<forall>r\<in>set (wildcard_rules alw). \<not> startsWith (pathname urlObj) r))"
  by (auto simp: isDisallowed_def some_rule_matches_iff split: option.splits)

lemma wildcard_rules_ensure_agent:
  "wildcard_rules (ensure_agent obj agent) = wildcard_rules obj"
  by (auto simp: ensure_agent_def wildcard_rules_def split: option.splits)

lemma wildcard_rules_push_rule:
  "push_rule obj agent path = Inr obj' \<Longrightarrow>
   wildcard_rules obj' = (if agent = WILDCARD then wildcard_rules obj @ [path] else wildcard_rules obj)"
  by (auto simp: push_rule_def wildcard_rules_def split: option.splits if_splits)

lemma disallow_line_is_no_other:
  assumes "startsWith (toLowerCase t) (js ''disallow:'')"
  shows "t \<noteq> []" and "\<not> startsWith t (js ''#'')"
    and "\<not> startsWith (toLowerCase t) (js ''user-agent:'')"
    and "\<not> startsWith (toLowerCase t) (js ''allow:'')"
proof -
  from assms have h: "toLowerCase t \<noteq> [] \<and> hd (toLowerCase t) = 0x64"
    using startsWith_ConsD [of "toLowerCase t" "0x64"] by (simp add: js_def)
  then show ne: "t \<noteq> []" by (auto simp: toLowerCase_def)
  from h ne have l: "lower_cu (hd t) = 0x64"
    by (simp add: toLowerCase_def hd_map)
  show "\<not> startsWith t (js ''#'')"
  proof
    assume "startsWith t (js ''#'')"
    then have "hd t = 0x23" using startsWith_ConsD [of t "0x23"] by (simp add: js_def)
    with l show False by (simp add: lower_cu_def)
  qed
  show "\<not> startsWith (toLowerCase t) (js ''user-agent:'')"
    using h startsWith_ConsD [of "toLowerCase t" "0x75"] by (auto simp: js_def)
  show "\<not> startsWith (toLowerCase t) (js ''allow:'')"
    using h startsWith_ConsD [of "toLowerCase t" "0x61"] by (auto simp: js_def)
qed

lemma parse_line_keeps_rules:
  assumes "parse_line line st = Inr st'"
  shows "set (wildcard_rules (disallow_rules st)) \<subseteq> set (wildcard_rules (disallow_rules st'))"
  using assms
  by (auto simp: parse_line_def Let_def wildcard_rules_ensure_agent
           split: if_splits sum.splits dest!: wildcard_rules_push_rule)

lemma parse_line_records_disallow:
  assumes "parse_line line st = Inr st'"
    and "currentUserAgent st = WILDCARD"
    and "startsWith (toLowerCase (trim line)) (js ''disallow:'')"
  shows "trim (after_colon (trim line)) \<in> set (wildcard_rules (disallow_rules st'))"
  using assms disallow_line_is_no_other [OF assms(3)]
  by (auto simp: parse_line_def Let_def split: sum.splits dest!: wildcard_rules_push_rule)

lemma parse_lines_keeps_rules:
  "parse_lines ls st = Inr st' \<Longrightarrow>
   set (wildcard_rules (disallow_rules st)) \<subseteq> set (wildcard_rules (disallow_rules st'))"
proof (induction ls arbitrary: st)
  case Nil
  then show ?case by simp
next
  case (Cons l ls)
  then obtain st1 where 1: "parse_line l st = Inr st1" and 2: "parse_lines ls st1 = Inr st'"
    by (auto split: sum.splits)
  from parse_line_keeps_rules [OF 1] Cons.IH [OF 2] show ?case by blast
qed

lemma parse_lines_append:
  "parse_lines (pre @ post) st = Inr st' \<longleftrightarrow>
     (\<exists>st1. parse_lines pre st = Inr st1 \<and> parse_lines post st1 = Inr st')"
  by (induction pre arbitrary: st) (auto split: sum.splits)

text \<open>
  C4. \<open>isDisallowed\<close> answers true exactly when the address parses, some disallow
  prefix of the wildcard agent is a prefix of its path and no allow prefix of the
  wildcard agent is: a matching allow rule wins over a matching disallow rule. An address
  that does not parse is not disallowed. With \<open>/private\<close> as the only disallow prefix
  and no matching allow prefix, the path \<open>/private/page\<close> is disallowed and
  \<open>/public/page\<close> is not. (A rules object has both \<open>allow\<close> and \<open>disallow\<close> or
  neither; with neither, nothing is disallowed.)
\<close>

theorem isDisallowed_wildcard_prefixes:
  "(isDisallowed parse u rules \<longleftrightarrow>
      (\<exists>urlObj dis alw. parse u = Some urlObj \<and> disallow rules = Some dis \<and> allow rules = Some alw \<and>
         (\<exists>r\<in>set (wildcard_rules dis). startsWith (pathname urlObj) r) \<and>
         (\<forall>r\<in>set (wildcard_rules alw). \<not> startsWith (pathname urlObj) r))) \<and>
   (parse u = None \<longrightarrow> \<not> isDisallowed parse u rules) \<and>
   (\<forall>urlObj dis alw.
      parse u = Some urlObj \<and> disallow rules = Some dis \<and> allow rules = Some alw \<and>
      wildcard_rules dis = [js ''/private''] \<and>
      (\<forall>r\<in>set (wildcard_rules alw). \<not> startsWith (pathname urlObj) r) \<longrightarrow>
      (pathname urlObj = js ''/private/page'' \<longrightarrow> isDisallowed parse u rules) \<and>
      (pathname urlObj = js ''/public/page'' \<longrightarrow> \<not> isDisallowed parse u rules))"
proof (intro conjI allI impI)
  show "isDisallowed parse u rules \<longleftrightarrow>
      (\<exists>urlObj dis alw. parse u = Some urlObj \<and> disallow rules = Some dis \<and> allow rules = Some alw \<and>
         (\<exists>r\<in>set (wildcard_rules dis). startsWith (pathname urlObj) r) \<and>
         (\<forall>r\<in>set (wildcard_rules alw). \<not> startsWith (pathname urlObj) r))"
    by (rule isDisallowed_iff)
next
  assume "parse u = None"
  then show "\<not> isDisallowed parse u rules" by (simp add: isDisallowed_def)
next
  fix urlObj dis alw
  assume h: "parse u = Some urlObj \<and> disallow rules = Some dis \<and> allow rules = Some alw \<and>
      wildcard_rules dis = [js ''/private''] \<and>
      (\<forall>r\<in>set (wildcard_rules alw). \<not> startsWith (pathname urlObj) r)"
  {
    assume "pathname urlObj = js ''/private/page''"
    moreover have "startsWith (js ''/private/page'') (js ''/private'')" by code_simp
    ultimately show "isDisallowed parse u rules"
      using h by (simp add: isDisallowed_def some_rule_matches_iff)
  next
    assume "pathname urlObj = js ''/public/page''"
    moreover have "\<not> startsWith (js ''/public/page'') (js ''/private'')" by code_simp
    ultimately show "\<not> isDisallowed parse u rules"
      using h by (simp add: isDisallowed_def some_rule_matches_iff)
  }
qed

text \<open>
  The same on the rules parsed from \<open>User-agent: *\<close>, \<open>Disallow: /private\<close>, and on an
  address that does not parse.
\<close>

theorem isDisallowed_wildcard_prefixes_witness:
  "isDisallowed example_parseURL (js ''https://site/private/page'') (projr (parseRobotsTxt robots_private)) \<and>
   \<not> isDisallowed example_parseURL (js ''https://site/public/page'') (projr (parseRobotsTxt robots_private)) \<and>
   \<not> isDisallowed example_parseURL (js ''site/private/page'') (projr (parseRobotsTxt robots_private))"
proof -
  have "case parseRobotsTxt robots_private of
          Inl e \<Rightarrow> False
        | Inr rules \<Rightarrow>
            (case disallow rules of
               None \<Rightarrow> False
             | Some dis \<Rightarrow>
                 (case allow rules of
                    None \<Rightarrow> False
                  | Some alw \<Rightarrow> wildcard_rules dis = [js ''/private''] \<and> wildcard_rules alw = []))"
    by code_simp
  then obtain rules dis alw where r: "parseRobotsTxt robots_private = Inr rules"
    and d: "disallow rules = Some dis" and a: "allow rules = Some alw"
    and w: "wildcard_rules dis = [js ''/private'']" and n: "wildcard_rules alw = []"
    by (auto split: sum.splits option.splits)
  have p1: "example_parseURL (js ''https://site/private/page'') =
              Some \<lparr>protocol = js ''https:'', hostname = js ''site'', pathname = js ''/private/page''\<rparr>"
    by code_simp
  have p2: "example_parseURL (js ''https://site/public/page'') =
              Some \<lparr>protocol = js ''https:'', hostname = js ''site'', pathname = js ''/public/page''\<rparr>"
    by code_simp
  have p3: "example_parseURL (js ''site/private/page'') = None"
    by code_simp
  have s1: "startsWith (js ''/private/page'') (js ''/private'')"
    by code_simp
  have s2: "\<not> startsWith (js ''/public/page'') (js ''/private'')"
    by code_simp
  from isDisallowed_wildcard_prefixes [of example_parseURL "js ''https://site/private/page''" rules]
       isDisallowed_wildcard_prefixes [of example_parseURL "js ''https://site/public/page''" rules]
       isDisallowed_wildcard_prefixes [of example_parseURL "js ''site/private/page''" rules]
       r d a w n p1 p2 p3 s1 s2
  show ?thesis by simp
qed

text \<open>
  C10. The claim is that a \<open>Disallow:\<close> line with an empty path under the wildcard
  agent makes the parser record the empty prefix, so that every address that parses is
  disallowed unless a wildcard allow prefix matches. The first line of the file below
  is such a directive, read while the current agent is \<open>*\<close>. Its third line is a rule
  for the agent \<open>constructor\<close>: the guard \<open>if (!rules.disallow[agent])\<close> finds the
  inherited \<open>Object\<close> function under that key, creates no list, and \<open>push\<close> throws a
  \<open>TypeError\<close>. The parser returns nothing, the crawl keeps \<open>{}\<close> as its rules, and
  no address is disallowed.
\<close>

theorem empty_disallow_parser_throws:
  "split_lines [] robots_inherited_agent =
     [] @ js ''Disallow:'' # [js ''User-agent: constructor'', js ''Disallow: /x''] \<and>
   parse_lines [] initial_parser_state = Inr initial_parser_state \<and>
   currentUserAgent initial_parser_state = WILDCARD \<and>
   startsWith (toLowerCase (trim (js ''Disallow:''))) (js ''disallow:'') \<and>
   trim (after_colon (trim (js ''Disallow:''))) = [] \<and>
   parseRobotsTxt robots_inherited_agent = Inl TypeError \<and>
   example_parseURL (js ''https://site/x'') \<noteq> None \<and>
   \<not> isDisallowed example_parseURL (js ''https://site/x'')
        (load_robots web_inherited_agent site_options site_base)"
proof -
  have a: "split_lines [] robots_inherited_agent =
     [] @ js ''Disallow:'' # [js ''User-agent: constructor'', js ''Disallow: /x'']"
    by code_simp
  have b: "currentUserAgent initial_parser_state = WILDCARD"
    by (simp add: initial_parser_state_def)
  have c: "startsWith (toLowerCase (trim (js ''Disallow:''))) (js ''disallow:'')"
    by code_simp
  have d: "trim (after_colon (trim (js ''Disallow:''))) = []"
    by code_simp
  have "case parseRobotsTxt robots_inherited_agent of
          Inl e \<Rightarrow> e = TypeError
        | Inr rules \<Rightarrow> False"
    by code_simp
  then have e: "parseRobotsTxt robots_inherited_agent = Inl TypeError"
    by (auto split: sum.splits)
  have f: "example_parseURL (js ''https://site/x'') \<noteq> None"
    by code_simp
  have g: "\<not> isDisallowed example_parseURL (js ''https://site/x'')
        (load_robots web_inherited_agent site_options site_base)"
    by code_simp
  from a b c d e f g show ?thesis by simp
qed

text \<open>
  On every file that the parser gets through, the directive does what is claimed: if
  \<open>parseRobotsTxt\<close> returns rules, and some line of the file, read when the current
  agent is \<open>*\<close>, begins with \<open>disallow:\<close> (in any case) and has an empty path, then
  the empty string is among the wildcard disallow prefixes, and an address that parses is
  disallowed if and only if no wildcard allow prefix matches its path.
\<close>

lemma empty_disallow_recorded:
  assumes "parseRobotsTxt text = Inr rules"
    and "split_lines [] text = pre @ line # post"
    and "parse_lines pre initial_parser_state = Inr st"
    and "currentUserAgent st = WILDCARD"
    and "startsWith (toLowerCase (trim line)) (js ''disallow:'')"
    and "trim (after_colon (trim line)) = []"
  shows "\<exists>dis alw. disallow rules = Some dis \<and> allow rules = Some alw \<and>
           [] \<in> set (wildcard_rules dis) \<and>
           (\<forall>u urlObj. parse u = Some urlObj \<longrightarrow>
              isDisallowed parse u rules = (\<not> some_rule_matches (pathname urlObj) (wildcard_rules alw)))"
proof -
  from assms(1) obtain fin where
    fin: "parse_lines (split_lines [] text) initial_parser_state = Inr fin" and
    rules: "rules = \<lparr>allow = Some (allow_rules fin), disallow = Some (disallow_rules fin)\<rparr>"
    by (auto simp: parseRobotsTxt_def split: sum.splits)
  from fin assms(2) have "parse_lines (pre @ [line] @ post) initial_parser_state = Inr fin"
    by simp
  with assms(3) obtain st2 where
    l: "parse_line line st = Inr st2" and r: "parse_lines post st2 = Inr fin"
    by (auto simp: parse_lines_append split: sum.splits)
  from parse_line_records_disallow [OF l assms(4) assms(5)] assms(6)
  have "[] \<in> set (wildcard_rules (disallow_rules st2))" by simp
  with parse_lines_keeps_rules [OF r]
  have e: "[] \<in> set (wildcard_rules (disallow_rules fin))" by blast
  then have "\<And>path. some_rule_matches path (wildcard_rules (disallow_rules fin))"
    unfolding some_rule_matches_iff using startsWith_Nil by blast
  with e rules show ?thesis
    by (simp add: isDisallowed_def)
qed

text \<open>
  On the file \<open>User-agent: *\<close>, \<open>Allow: /pub\<close>, \<open>Disallow:\<close>: everything outside
  \<open>/pub\<close> is disallowed.
\<close>

lemma empty_disallow_recorded_example:
  "isDisallowed example_parseURL (js ''https://site/x'') (projr (parseRobotsTxt robots_empty_disallow)) \<and>
   \<not> isDisallowed example_parseURL (js ''https://site/pub/x'') (projr (parseRobotsTxt robots_empty_disallow))"
proof -
  let ?pre = "[js ''User-agent: *'', js ''Allow: /pub'']"
  have "case parseRobotsTxt robots_empty_disallow of
          Inl e \<Rightarrow> False
        | Inr rules \<Rightarrow>
            (case allow rules of
               None \<Rightarrow> False
             | Some alw \<Rightarrow> \<not> some_rule_matches (js ''/x'') (wildcard_rules alw) \<and>
                           some_rule_matches (js ''/pub/x'') (wildcard_rules alw))"
    by code_simp
  then obtain rules alw where 1: "parseRobotsTxt robots_empty_disallow = Inr rules"
    and alw: "allow rules = Some alw"
    and m1: "\<not> some_rule_matches (js ''/x'') (wildcard_rules alw)"
    and m2: "some_rule_matches (js ''/pub/x'') (wildcard_rules alw)"
    by (auto split: sum.splits option.splits)
  have 2: "split_lines [] robots_empty_disallow = ?pre @ js ''Disallow:'' # []"
    by code_simp
  have "case parse_lines ?pre initial_parser_state of
          Inl e \<Rightarrow> False
        | Inr st \<Rightarrow> currentUserAgent st = WILDCARD"
    by code_simp
  then obtain st where 3: "parse_lines ?pre initial_parser_state = Inr st"
    and 4: "currentUserAgent st = WILDCARD"
    by (auto split: sum.splits)
  have 5: "startsWith (toLowerCase (trim (js ''Disallow:''))) (js ''disallow:'')"
    by code_simp
  have 6: "trim (after_colon (trim (js ''Disallow:''))) = []"
    by code_simp
  from empty_disallow_recorded [OF 1 2 3 4 5 6, of example_parseURL] alw
  have all: "\<And>u urlObj. example_parseURL u = Some urlObj \<Longrightarrow>
              isDisallowed example_parseURL u rules =
              (\<not> some_rule_matches (pathname urlObj) (wildcard_rules alw))"
    by auto
  have p1: "example_parseURL (js ''https://site/x'') =
              Some \<lparr>protocol = js ''https:'', hostname = js ''site'', pathname = js ''/x''\<rparr>"
    by code_simp
  have p2: "example_parseURL (js ''https://site/pub/x'') =
              Some \<lparr>protocol = js ''https:'', hostname = js ''site'', pathname = js ''/pub/x''\<rparr>"
    by code_simp
  from all [OF p1] all [OF p2] m1 m2 1 show ?thesis by simp
qed

section \<open>Properties of the crawl\<close>

lemma set_dedupe: "set (dedupe seen ls) = set seen \<union> set ls"
  by (induction ls arbitrary: seen) auto

lemma set_extractLinks [simp]: "set (extractLinks hrefs) = set hrefs"
  by (simp add: extractLinks_def set_dedupe)

lemma crawl_step_cases [consumes 1, case_names skip throw fail leaf barren expand]:
  assumes q: "queue st = (u, k) # rest"
  obtains
    (skip) "u \<in> set (visited st) \<or> \<not> admitted w opts baseUrl robotsRules u"
      "parseURL w u \<noteq> None \<or> u \<in> set (visited st) \<or>
         (respectRobotsTxt opts \<and> isDisallowed (parseURL w) u robotsRules)"
      "crawl_step w opts baseUrl robotsRules st = st\<lparr>queue := rest\<rparr>"
  | (throw) "u \<notin> set (visited st)" "parseURL w u = None"
      "crawl_step w opts baseUrl robotsRules st = st\<lparr>queue := rest, thrown := Some TypeError\<rparr>"
  | (fail) "u \<notin> set (visited st)" "admitted w opts baseUrl robotsRules u"
      "render w u = RenderError"
      "crawl_step w opts baseUrl robotsRules st =
         st\<lparr>queue := rest, visited := visited st @ [u], fetched := fetched st @ [(u, k)]\<rparr>"
  | (leaf) p anchors where "u \<notin> set (visited st)" "admitted w opts baseUrl robotsRules u"
      "render w u = Rendered p anchors" "\<not> k < depth opts"
      "crawl_step w opts baseUrl robotsRules st =
         st\<lparr>queue := rest, visited := visited st @ [u], fetched := fetched st @ [(u, k)],
            results := results st @
              [\<lparr>url = u, title = pageTitle p, description = metaDescription p,
                content = innerText p, html = pageHtml p, crawledAt = clock p\<rparr>]\<rparr>"
  | (barren) p where "u \<notin> set (visited st)" "admitted w opts baseUrl robotsRules u"
      "render w u = Rendered p None" "k < depth opts"
      "crawl_step w opts baseUrl robotsRules st =
         st\<lparr>queue := rest, visited := visited st @ [u], fetched := fetched st @ [(u, k)],
            results := results st @
              [\<lparr>url = u, title = pageTitle p, description = metaDescription p,
                content = innerText p, html = pageHtml p, crawledAt = clock p\<rparr>],
            expanded := expanded st @ [(u, k)]\<rparr>"
  | (expand) p hrefs where "u \<notin> set (visited st)" "admitted w opts baseUrl robotsRules u"
      "render w u = Rendered p (Some hrefs)" "k < depth opts"
      "crawl_step w opts baseUrl robotsRules st =
         st\<lparr>queue := rest @ map (\<lambda>link. (link, k + 1))
                             (filter (\<lambda>link. link \<notin> set (visited st @ [u])) (extractLinks hrefs)),
            visited := visited st @ [u], fetched := fetched st @ [(u, k)],
            results := results st @
              [\<lparr>url = u, title = pageTitle p, description = metaDescription p,
                content = innerText p, html = pageHtml p, crawledAt = clock p\<rparr>],
            expanded := expanded st @ [(u, k)]\<rparr>"
proof (cases "u \<in> set (visited st) \<or> (respectRobotsTxt opts \<and> isDisallowed (parseURL w) u robotsRules)")
  case True
  then have "crawl_step w opts baseUrl robotsRules st = st\<lparr>queue := rest\<rparr>"
    using q by (auto simp: crawl_step_def Let_def)
  moreover from True have "u \<in> set (visited st) \<or> \<not> admitted w opts baseUrl robotsRules u"
    by (auto simp: admitted_def)
  ultimately show ?thesis using True skip by blast
next
  case False
  then have nv: "u \<notin> set (visited st)"
    and nd: "\<not> (respectRobotsTxt opts \<and> isDisallowed (parseURL w) u robotsRules)" by auto
  show ?thesis
  proof (cases "parseURL w u")
    case None
    with q nv nd have "crawl_step w opts baseUrl robotsRules st = st\<lparr>queue := rest, thrown := Some TypeError\<rparr>"
      by (auto simp: crawl_step_def Let_def)
    with nv None show ?thesis using throw by blast
  next
    case (Some urlObj)
    show ?thesis
    proof (cases "hostname urlObj = hostname baseUrl")
      case False
      with q nv nd Some have "crawl_step w opts baseUrl robotsRules st = st\<lparr>queue := rest\<rparr>"
        by (auto simp: crawl_step_def Let_def)
      moreover from False Some have "\<not> admitted w opts baseUrl robotsRules u"
        by (simp add: admitted_def)
      ultimately show ?thesis using Some skip by blast
    next
      case True
      with Some nd have adm: "admitted w opts baseUrl robotsRules u"
        by (simp add: admitted_def)
      show ?thesis
      proof (cases "render w u")
        case RenderError
        with q nv nd Some True have "crawl_step w opts baseUrl robotsRules st =
           st\<lparr>queue := rest, visited := visited st @ [u], fetched := fetched st @ [(u, k)]\<rparr>"
          by (auto simp: crawl_step_def Let_def set_add_def)
        with nv adm RenderError show ?thesis using fail by blast
      next
        case (Rendered p anchors)
        show ?thesis
        proof (cases "k < depth opts")
          case False
          with q nv nd Some True Rendered show ?thesis
            by (intro leaf [of p anchors] adm) (auto simp: crawl_step_def Let_def set_add_def)
        next
          case deep: True
          show ?thesis
          proof (cases anchors)
            case None
            with q nv nd Some True Rendered deep show ?thesis
              by (intro barren [of p] adm) (auto simp: crawl_step_def Let_def set_add_def)
          next
            case (Some hrefs)
            with q nv nd \<open>parseURL w u = Some urlObj\<close> True Rendered deep show ?thesis
              by (intro expand [of p hrefs] adm) (auto simp: crawl_step_def Let_def set_add_def)
          qed
        qed
      qed
    qed
  qed
qed

lemma crawl_loop_invariant:
  assumes "P st"
    and "\<And>s. P s \<Longrightarrow> continuing opts s \<Longrightarrow> P (crawl_step w opts baseUrl robotsRules s)"
  shows "P (crawl_loop w opts baseUrl robotsRules st)"
  using assms
proof (induction w opts baseUrl robotsRules st rule: crawl_loop.induct)
  case (1 w opts baseUrl robotsRules st)
  show ?case
  proof (cases "continuing opts st")
    case True
    from "1.prems"(2) [OF "1.prems"(1) True]
    have "P (crawl_loop w opts baseUrl robotsRules (crawl_step w opts baseUrl robotsRules st))"
      by (rule "1.IH" [OF True]) (rule "1.prems"(2))
    with True show ?thesis by simp
  next
    case False
    with "1.prems"(1) show ?thesis by simp
  qed
qed

lemma crawl_loop_stops: "\<not> continuing opts (crawl_loop w opts baseUrl robotsRules st)"
proof (induction w opts baseUrl robotsRules st rule: crawl_loop.induct)
  case (1 w opts baseUrl robotsRules st)
  then show ?case by (cases "continuing opts st") simp_all
qed

lemma child_of_mono: "child_of w seed fs u k \<Longrightarrow> set fs \<subseteq> set fs' \<Longrightarrow> child_of w seed fs' u k"
  unfolding child_of_def by blast

lemma trace_inv_initial: "trace_inv w opts baseUrl robotsRules seed (initial_state seed)"
  by (simp add: trace_inv_def initial_state_def child_of_def)

lemma trace_inv_step:
  assumes inv: "trace_inv w opts baseUrl robotsRules seed st" and c: "continuing opts st"
  shows "trace_inv w opts baseUrl robotsRules seed (crawl_step w opts baseUrl robotsRules st)"
proof -
  from c obtain u k rest where q: "queue st = (u, k) # rest"
    by (cases "queue st") (auto simp: continuing_def)
  from c have lt: "length (results st) < maxPages opts" by (simp add: continuing_def)
  from inv have v: "visited st = map fst (fetched st)" and dv: "distinct (visited st)"
    and f: "\<forall>(u, k)\<in>set (fetched st). admitted w opts baseUrl robotsRules u \<and> k \<le> depth opts"
    and e: "\<forall>(u, k)\<in>set (expanded st). k < depth opts \<and> (u, k) \<in> set (fetched st)"
    and qd: "\<forall>(u, k)\<in>set (queue st). k \<le> depth opts"
    and ch: "\<forall>(u, k)\<in>set (queue st) \<union> set (fetched st). child_of w seed (expanded st) u k"
    and dr: "distinct (map url (results st))"
    and sr: "set (map url (results st)) \<subseteq> set (visited st)"
    and rr: "\<forall>(u, k)\<in>set (fetched st). render w u \<noteq> RenderError \<longrightarrow> u \<in> set (map url (results st))"
    unfolding trace_inv_def by blast+
  have ch0: "child_of w seed (expanded st) x j"
    if "(x, j) \<in> set (queue st) \<union> set (fetched st)" for x j
    using ch that by blast
  have ch': "child_of w seed (expanded st @ [(u, k)]) x j"
    if "(x, j) \<in> set (queue st) \<union> set (fetched st)" for x j
    using ch0 [OF that] by (rule child_of_mono) auto
  from q qd have kd: "k \<le> depth opts" by auto
  from q ch0 have chu: "child_of w seed (expanded st) u k" by auto
  from q ch' have chu': "child_of w seed (expanded st @ [(u, k)]) u k" by auto
  show ?thesis
    using q
  proof (cases rule: crawl_step_cases [where w = w and opts = opts and baseUrl = baseUrl
                                         and robotsRules = robotsRules])
    case skip
    with inv q show ?thesis by (auto simp: trace_inv_def)
  next
    case throw
    with inv q show ?thesis by (auto simp: trace_inv_def)
  next
    case fail
    show ?thesis
      unfolding trace_inv_def fail(4)
      using v dv f e qd ch0 chu dr sr rr q kd lt fail(1,2,3)
      by auto
  next
    case (leaf p anchors)
    show ?thesis
      unfolding trace_inv_def leaf(5)
      using v dv f e qd ch0 chu dr sr rr q kd lt leaf(1,2,3,4)
      by auto
  next
    case (barren p)
    show ?thesis
      unfolding trace_inv_def barren(5)
      using v dv f e qd ch' chu' dr sr rr q kd lt barren(1,2,3,4)
      by auto
  next
    case (expand p hrefs)
    have new: "\<And>l. l \<in> set hrefs \<Longrightarrow> child_of w seed (expanded st @ [(u, k)]) l (Suc k)"
      using expand(3) by (auto simp: child_of_def)
    show ?thesis
      unfolding trace_inv_def expand(5)
      using v dv f e qd ch' chu' dr sr rr q kd lt expand(1,2,3,4) new
      by auto
  qed
qed

lemma trace_inv_crawl_run:
  "trace_inv w opts baseUrl (load_robots w opts baseUrl) seed (crawl_run w seed opts baseUrl)"
  unfolding crawl_run_def
  by (rule crawl_loop_invariant
        [where P = "trace_inv w opts baseUrl (load_robots w opts baseUrl) seed"])
     (rule trace_inv_initial, rule trace_inv_step)

lemma distinct_count_le_1: "distinct xs \<Longrightarrow> count_list xs x \<le> 1"
  by (induction xs) auto

text \<open>
  C2, as claimed: an address whose origin (scheme and host) differs from that of the
  start address is never fetched. The loop compares \<open>hostname\<close> only. From the start
  address \<open>https://site/\<close>, whose page links to \<open>http://site/x\<close>, that link is
  fetched, at depth 1, though its scheme and so its origin differ.
\<close>

theorem crawl_fetches_other_scheme:
  "parseURL web_mixed (js ''https://site/'') = Some site_base \<and>
   (js ''http://site/x'', 1) \<in> set (fetched (crawl_run web_mixed (js ''https://site/'') site_options site_base)) \<and>
   origin_in_spec (the (parseURL web_mixed (js ''http://site/x''))) \<noteq> origin_in_spec site_base"
  by code_simp

text \<open>
  C2, amended: every address the crawl fetches parses and has the host name of the start
  address, whatever depth is left; an address with another host name is never fetched.
\<close>

theorem crawl_fetches_same_hostname:
  "\<forall>(u, k)\<in>set (fetched (crawl_run w seed opts baseUrl)).
     \<exists>urlObj. parseURL w u = Some urlObj \<and> hostname urlObj = hostname baseUrl"
  using trace_inv_crawl_run [of w opts baseUrl seed]
  by (fastforce simp: trace_inv_def admitted_def split: option.splits)

text \<open>
  On the first site: the fetched \<open>http://site/x\<close> has the host name \<open>site\<close>, and
  \<open>https://other/y\<close>, linked from the same page, is not fetched.
\<close>

theorem crawl_fetches_same_hostname_witness:
  "(\<exists>urlObj. parseURL web_mixed (js ''http://site/x'') = Some urlObj \<and> hostname urlObj = js ''site'') \<and>
   js ''https://other/y'' \<notin> fst ` set (fetched (crawl_run web_mixed (js ''https://site/'') site_options site_base))"
proof -
  let ?f = "fetched (crawl_run web_mixed (js ''https://site/'') site_options site_base)"
  have m: "(js ''http://site/x'', 1) \<in> set ?f" by code_simp
  have h: "hostname site_base = js ''site''" by (simp add: site_base_def)
  have "case parseURL web_mixed (js ''https://other/y'') of
          None \<Rightarrow> True
        | Some urlObj \<Rightarrow> hostname urlObj \<noteq> hostname site_base"
    by code_simp
  then have o: "\<not> (\<exists>urlObj. parseURL web_mixed (js ''https://other/y'') = Some urlObj \<and>
                        hostname urlObj = hostname site_base)"
    by (auto split: option.splits)
  from crawl_fetches_same_hostname [of web_mixed "js ''https://site/''" site_options site_base] m h o
  show ?thesis by fastforce
qed

text \<open>
  C5. With maximum depth \<open>d\<close>, links are extracted only from pages fetched at a depth
  below \<open>d\<close>; every entry ever in the queue or fetched has depth at most \<open>d\<close> and is
  the start address at depth 0 or a link of a page expanded one level above. With
  \<open>d = 1\<close> every fetched address is the start address or one of its direct links.
\<close>

theorem crawl_depth_bound:
  "(\<forall>(u, k)\<in>set (expanded (crawl_run w seed opts baseUrl)).
      k < depth opts \<and> (u, k) \<in> set (fetched (crawl_run w seed opts baseUrl))) \<and>
   (\<forall>(u, k)\<in>set (queue (crawl_run w seed opts baseUrl)) \<union> set (fetched (crawl_run w seed opts baseUrl)).
      k \<le> depth opts \<and>
      ((k = 0 \<and> u = seed) \<or>
       (\<exists>v j p hrefs. k = Suc j \<and> (v, j) \<in> set (expanded (crawl_run w seed opts baseUrl)) \<and>
          render w v = Rendered p (Some hrefs) \<and> u \<in> set hrefs))) \<and>
   (depth opts = 1 \<longrightarrow>
      (\<forall>(u, k)\<in>set (fetched (crawl_run w seed opts baseUrl)).
         u = seed \<or> (\<exists>p hrefs. render w seed = Rendered p (Some hrefs) \<and> u \<in> set hrefs)))"
proof -
  let ?st = "crawl_run w seed opts baseUrl"
  from trace_inv_crawl_run [of w opts baseUrl seed]
  have e: "\<forall>(u, k)\<in>set (expanded ?st). k < depth opts \<and> (u, k) \<in> set (fetched ?st)"
    and b: "\<forall>(u, k)\<in>set (queue ?st) \<union> set (fetched ?st). k \<le> depth opts"
    and ch: "\<forall>(u, k)\<in>set (queue ?st) \<union> set (fetched ?st). child_of w seed (expanded ?st) u k"
    unfolding trace_inv_def by blast+
  have one: "u = seed \<or> (\<exists>p hrefs. render w seed = Rendered p (Some hrefs) \<and> u \<in> set hrefs)"
    if d: "depth opts = 1" and m: "(u, k) \<in> set (fetched ?st)" for u k
  proof -
    from ch m have "child_of w seed (expanded ?st) u k" by blast
    then show ?thesis
      unfolding child_of_def
    proof (elim disjE exE conjE)
      assume "u = seed" then show ?thesis by simp
    next
      fix v j p hrefs
      assume k: "k = Suc j" and x: "(v, j) \<in> set (expanded ?st)"
        and r: "render w v = Rendered p (Some hrefs)" and u: "u \<in> set hrefs"
      from e x d have j: "j = 0" and vf: "(v, j) \<in> set (fetched ?st)" by auto
      from ch vf have "child_of w seed (expanded ?st) v j" by blast
      with j have "v = seed" by (simp add: child_of_def)
      with r u show ?thesis by blast
    qed
  qed
  from e b ch one show ?thesis
    unfolding child_of_def by (intro conjI) (blast+)
qed

text \<open>
  On the chain \<open>/\<close>, \<open>a\<close>, \<open>b\<close>, \<open>c\<close> with depth 1: \<open>a\<close> is fetched, \<open>b\<close> is not.
\<close>

theorem crawl_depth_bound_witness:
  "js ''https://site/b'' \<notin> fst ` set (fetched (crawl_run web_chain (js ''https://site/'') site_options site_base)) \<and>
   (js ''https://site/a'', 1) \<in> set (fetched (crawl_run web_chain (js ''https://site/'') site_options site_base))"
proof -
  let ?st = "crawl_run web_chain (js ''https://site/'') site_options site_base"
  have d: "depth site_options = 1" by (simp add: site_options_def)
  have r: "render web_chain (js ''https://site/'') = Rendered example_page (Some [js ''https://site/a''])"
    by (simp add: web_chain_def)
  have n: "js ''https://site/b'' \<noteq> js ''https://site/'' \<and> js ''https://site/b'' \<noteq> js ''https://site/a''"
    by code_simp
  have m: "(js ''https://site/a'', 1) \<in> set (fetched ?st)" by code_simp
  from crawl_depth_bound [of web_chain "js ''https://site/''" site_options site_base] d
  have "\<forall>(u, k)\<in>set (fetched ?st).
         u = js ''https://site/'' \<or>
         (\<exists>p hrefs. render web_chain (js ''https://site/'') = Rendered p (Some hrefs) \<and> u \<in> set hrefs)"
    by blast
  with r n have "js ''https://site/b'' \<notin> fst ` set (fetched ?st)" by fastforce
  with m show ?thesis by simp
qed

text \<open>
  C7. The claim is that each URL is fetched at most once, and that every URL ever
  fetched is in the visited set exactly once. \<open>extractLinks\<close> queues the links in
  normal form (\<open>new URL(a.href, base).href\<close>), but the start address is queued as it
  was given, and \<open>visited.has\<close> compares strings. Started at \<open>https://site\<close>, on a
  site whose home page links to itself: the link reads \<open>https://site/\<close>, the same URL
  (both parse to the same fields), the visited set does not know it under that
  spelling, and the home page is fetched a second time, at depth 1, and recorded twice.
\<close>

theorem crawl_fetches_home_twice:
  "parseURL web_home (js ''https://site'') = Some site_base \<and>
   parseURL web_home (js ''https://site/'') = Some site_base \<and>
   fetched (crawl_run web_home (js ''https://site'') site_options site_base) =
     [(js ''https://site'', 0), (js ''https://site/'', 1)] \<and>
   visited (crawl_run web_home (js ''https://site'') site_options site_base) =
     [js ''https://site'', js ''https://site/''] \<and>
   (case crawlWebsite web_home (js ''https://site'') site_options of
      Inl e \<Rightarrow> False
    | Inr pages \<Rightarrow> map url pages = [js ''https://site'', js ''https://site/''])"
  by code_simp

text \<open>
  What the visited set does ensure is that no spelling is fetched twice: the log of
  fetches has no string twice, and it is the visited set in insertion order (every
  fetch is preceded by its \<open>visited.add\<close>, and that only after \<open>visited.has\<close> said
  no). Started at an address in normal form, the crawl meets normal forms only.
\<close>

lemma fetched_strings_distinct:
  "distinct (map fst (fetched (crawl_run w seed opts baseUrl))) \<and>
   visited (crawl_run w seed opts baseUrl) = map fst (fetched (crawl_run w seed opts baseUrl)) \<and>
   distinct (visited (crawl_run w seed opts baseUrl)) \<and>
   (\<forall>u. count_list (map fst (fetched (crawl_run w seed opts baseUrl))) u \<le> 1)"
proof -
  let ?st = "crawl_run w seed opts baseUrl"
  from trace_inv_crawl_run [of w opts baseUrl seed]
  have v: "visited ?st = map fst (fetched ?st)" and d: "distinct (visited ?st)"
    unfolding trace_inv_def by blast+
  then have "distinct (map fst (fetched ?st))" by simp
  moreover from this have "\<forall>u. count_list (map fst (fetched ?st)) u \<le> 1"
    by (blast intro: distinct_count_le_1)
  ultimately show ?thesis using v d by blast
qed

section \<open>The page ceiling\<close>

lemma bfs_invI:
  assumes "sorted (map snd (queue st))"
    and "\<And>x i y j. (x, i) \<in> set (queue st) \<Longrightarrow> (y, j) \<in> set (fetched st) \<Longrightarrow> j \<le> i"
    and "\<And>x i y j. (x, i) \<in> set (queue st) \<Longrightarrow> (y, j) \<in> set (queue st) \<Longrightarrow> i \<le> Suc j"
    and "(seed, 0) \<in> set (queue st) \<or> (seed, 0) \<in> set (fetched st) \<or>
         \<not> admitted w opts baseUrl robotsRules seed"
    and "\<And>y j p hrefs x. (y, j) \<in> set (fetched st) \<Longrightarrow> j < depth opts \<Longrightarrow>
           render w y = Rendered p (Some hrefs) \<Longrightarrow> x \<in> set hrefs \<Longrightarrow>
           (\<exists>k\<le>Suc j. (x, k) \<in> set (fetched st)) \<or>
           \<not> admitted w opts baseUrl robotsRules x \<or> (x, Suc j) \<in> set (queue st)"
  shows "bfs_inv w opts baseUrl robotsRules seed st"
proof -
  have 2: "\<forall>(u, k)\<in>set (queue st). \<forall>(v, j)\<in>set (fetched st). j \<le> k"
    using assms(2) by blast
  have 3: "\<forall>(u, k)\<in>set (queue st). \<forall>(v, j)\<in>set (queue st). k \<le> Suc j"
    using assms(3) by blast
  have 5: "\<forall>(v, j)\<in>set (fetched st). j < depth opts \<longrightarrow>
         (\<forall>p hrefs. render w v = Rendered p (Some hrefs) \<longrightarrow>
            (\<forall>u\<in>set hrefs. (\<exists>k\<le>Suc j. (u, k) \<in> set (fetched st)) \<or>
                            \<not> admitted w opts baseUrl robotsRules u \<or>
                            (u, Suc j) \<in> set (queue st)))"
    using assms(5) by blast
  from assms(1) 2 3 assms(4) 5 show ?thesis
    unfolding bfs_inv_def by blast
qed

lemma sorted_map_const: "sorted (map (\<lambda>x. (c::nat)) xs)"
  by (induction xs) auto

lemma bfs_inv_initial: "bfs_inv w opts baseUrl robotsRules seed (initial_state seed)"
  by (simp add: bfs_inv_def initial_state_def)

lemma bfs_inv_step:
  assumes tr: "trace_inv w opts baseUrl robotsRules seed st"
    and inv: "bfs_inv w opts baseUrl robotsRules seed st" and c: "continuing opts st"
  shows "bfs_inv w opts baseUrl robotsRules seed (crawl_step w opts baseUrl robotsRules st)"
proof -
  from c obtain u k rest where q: "queue st = (u, k) # rest"
    by (cases "queue st") (auto simp: continuing_def)
  from c have nt: "thrown st = None" by (simp add: continuing_def)
  from tr have v: "visited st = map fst (fetched st)"
    unfolding trace_inv_def by blast
  from inv nt have so: "sorted (map snd (queue st))"
    and fq: "\<forall>(u, k)\<in>set (queue st). \<forall>(v, j)\<in>set (fetched st). j \<le> k"
    and sp: "\<forall>(u, k)\<in>set (queue st). \<forall>(v, j)\<in>set (queue st). k \<le> Suc j"
    and sd: "(seed, 0) \<in> set (queue st) \<or> (seed, 0) \<in> set (fetched st) \<or>
             \<not> admitted w opts baseUrl robotsRules seed"
    and cl: "\<forall>(v, j)\<in>set (fetched st). j < depth opts \<longrightarrow>
         (\<forall>p hrefs. render w v = Rendered p (Some hrefs) \<longrightarrow>
            (\<forall>u\<in>set hrefs. (\<exists>k\<le>Suc j. (u, k) \<in> set (fetched st)) \<or>
                            \<not> admitted w opts baseUrl robotsRules u \<or>
                            (u, Suc j) \<in> set (queue st)))"
    unfolding bfs_inv_def by blast+
  \<comment> \<open>the entries left in the queue lie between \<open>k\<close> and \<open>k + 1\<close>\<close>
  from so q have lo: "\<And>x j. (x, j) \<in> set rest \<Longrightarrow> k \<le> j" by auto
  from sp q have hi: "\<And>x j. (x, j) \<in> set rest \<Longrightarrow> j \<le> Suc k" by fastforce
  from fq q have fk: "\<And>x j. (x, j) \<in> set (fetched st) \<Longrightarrow> j \<le> k" by fastforce
  from so q have so': "sorted (map snd rest)" by simp
  \<comment> \<open>what is known of the links of the pages fetched so far, once the head is gone\<close>
  have cl_skip: "(\<exists>k'\<le>Suc j. (x, k') \<in> set (fetched st)) \<or>
                 \<not> admitted w opts baseUrl robotsRules x \<or> (x, Suc j) \<in> set rest"
    if "(y, j) \<in> set (fetched st)" "j < depth opts" "render w y = Rendered p (Some hrefs)"
       "x \<in> set hrefs" "u \<in> set (visited st) \<or> \<not> admitted w opts baseUrl robotsRules u"
    for x y j p hrefs
  proof -
    from cl that(1-4)
    have "(\<exists>k'\<le>Suc j. (x, k') \<in> set (fetched st)) \<or>
          \<not> admitted w opts baseUrl robotsRules x \<or> (x, Suc j) \<in> set (queue st)"
      by blast
    moreover
    { assume h: "(x, Suc j) = (u, k)" and "u \<in> set (visited st)"
      with v obtain k' where "(u, k') \<in> set (fetched st)" by auto
      with fk h have "\<exists>k'\<le>Suc j. (x, k') \<in> set (fetched st)" by blast }
    ultimately show ?thesis using q that(5) by auto
  qed
  have cl_fetch: "(\<exists>k'\<le>Suc j. (x, k') \<in> set (fetched st @ [(u, k)])) \<or>
                 \<not> admitted w opts baseUrl robotsRules x \<or> (x, Suc j) \<in> set rest"
    if "(y, j) \<in> set (fetched st)" "j < depth opts" "render w y = Rendered p (Some hrefs)"
       "x \<in> set hrefs"
    for x y j p hrefs
  proof -
    from cl that
    have "(\<exists>k'\<le>Suc j. (x, k') \<in> set (fetched st)) \<or>
          \<not> admitted w opts baseUrl robotsRules x \<or> (x, Suc j) \<in> set (queue st)"
      by blast
    then show ?thesis using q by auto
  qed
  have fk1: "j \<le> k" if "(y, j) \<in> set (fetched st @ [(u, k)])" for y j
    using that fk by auto
  have fq0: "j \<le> i" if "(x, i) \<in> set rest" "(y, j) \<in> set (fetched st)" for x i y j
    using lo [OF that(1)] fk [OF that(2)] by simp
  have fq1: "j \<le> i" if "(x, i) \<in> set rest" "(y, j) \<in> set (fetched st @ [(u, k)])" for x i y j
    using lo [OF that(1)] fk1 [OF that(2)] by simp
  have sp0: "i \<le> Suc j" if "(x, i) \<in> set rest" "(y, j) \<in> set rest" for x i y j
    using hi [OF that(1)] lo [OF that(2)] by simp
  have seed1: "(seed, 0) \<in> set rest \<or> (seed, 0) \<in> set (fetched st @ [(u, k)]) \<or>
             \<not> admitted w opts baseUrl robotsRules seed"
    using sd q by auto
  show ?thesis
    using q
  proof (cases rule: crawl_step_cases [where w = w and opts = opts and baseUrl = baseUrl
                                         and robotsRules = robotsRules])
    case skip
    have seed': "(seed, 0) \<in> set rest \<or> (seed, 0) \<in> set (fetched st) \<or>
             \<not> admitted w opts baseUrl robotsRules seed"
    proof -
      { assume h: "(seed, 0) = (u, k)" and "u \<in> set (visited st)"
        with v obtain k' where "(u, k') \<in> set (fetched st)" by auto
        with fk h have "(seed, 0) \<in> set (fetched st)" by fastforce }
      with sd q skip(1) show ?thesis by auto
    qed
    show ?thesis
      unfolding skip(3)
    proof (rule bfs_invI)
      fix y j p hrefs x
      assume "(y, j) \<in> set (fetched (st\<lparr>queue := rest\<rparr>))" "j < depth opts"
        "render w y = Rendered p (Some hrefs)" "x \<in> set hrefs"
      with cl_skip [of y j p hrefs x] skip(1)
      show "(\<exists>k\<le>Suc j. (x, k) \<in> set (fetched (st\<lparr>queue := rest\<rparr>))) \<or>
            \<not> admitted w opts baseUrl robotsRules x \<or> (x, Suc j) \<in> set (queue (st\<lparr>queue := rest\<rparr>))"
        by simp
    qed (use so' fq0 sp0 seed' in auto)
  next
    case throw
    then show ?thesis by (simp add: bfs_inv_def)
  next
    case fail
    let ?st' = "st\<lparr>queue := rest, visited := visited st @ [u], fetched := fetched st @ [(u, k)]\<rparr>"
    show ?thesis
      unfolding fail(4)
    proof (rule bfs_invI)
      fix y j p hrefs x
      assume m: "(y, j) \<in> set (fetched ?st')" and d: "j < depth opts"
        and r: "render w y = Rendered p (Some hrefs)" and x: "x \<in> set hrefs"
      from m r fail(3) have "(y, j) \<in> set (fetched st)" by auto
      from cl_fetch [OF this d r x]
      show "(\<exists>k\<le>Suc j. (x, k) \<in> set (fetched ?st')) \<or>
            \<not> admitted w opts baseUrl robotsRules x \<or> (x, Suc j) \<in> set (queue ?st')"
        by simp
    qed (use so' fq1 sp0 seed1 in auto)
  next
    case (leaf p0 anchors)
    let ?st' = "st\<lparr>queue := rest, visited := visited st @ [u], fetched := fetched st @ [(u, k)],
            results := results st @
              [\<lparr>url = u, title = pageTitle p0, description = metaDescription p0,
                content = innerText p0, html = pageHtml p0, crawledAt = clock p0\<rparr>]\<rparr>"
    show ?thesis
      unfolding leaf(5)
    proof (rule bfs_invI)
      fix y j p hrefs x
      assume m: "(y, j) \<in> set (fetched ?st')" and d: "j < depth opts"
        and r: "render w y = Rendered p (Some hrefs)" and x: "x \<in> set hrefs"
      from m d leaf(4) have "(y, j) \<in> set (fetched st)" by auto
      from cl_fetch [OF this d r x]
      show "(\<exists>k\<le>Suc j. (x, k) \<in> set (fetched ?st')) \<or>
            \<not> admitted w opts baseUrl robotsRules x \<or> (x, Suc j) \<in> set (queue ?st')"
        by simp
    qed (use so' fq1 sp0 seed1 in auto)
  next
    case (barren p0)
    let ?st' = "st\<lparr>queue := rest, visited := visited st @ [u], fetched := fetched st @ [(u, k)],
            results := results st @
              [\<lparr>url = u, title = pageTitle p0, description = metaDescription p0,
                content = innerText p0, html = pageHtml p0, crawledAt = clock p0\<rparr>],
            expanded := expanded st @ [(u, k)]\<rparr>"
    show ?thesis
      unfolding barren(5)
    proof (rule bfs_invI)
      fix y j p hrefs x
      assume m: "(y, j) \<in> set (fetched ?st')" and d: "j < depth opts"
        and r: "render w y = Rendered p (Some hrefs)" and x: "x \<in> set hrefs"
      from m r barren(3) have "(y, j) \<in> set (fetched st)" by auto
      from cl_fetch [OF this d r x]
      show "(\<exists>k\<le>Suc j. (x, k) \<in> set (fetched ?st')) \<or>
            \<not> admitted w opts baseUrl robotsRules x \<or> (x, Suc j) \<in> set (queue ?st')"
        by simp
    qed (use so' fq1 sp0 seed1 in auto)
  next
    case (expand p0 hrefs0)
    let ?new = "map (\<lambda>link. (link, k + 1))
                  (filter (\<lambda>link. link \<notin> set (visited st @ [u])) (extractLinks hrefs0))"
    let ?st' = "st\<lparr>queue := rest @ ?new,
            visited := visited st @ [u], fetched := fetched st @ [(u, k)],
            results := results st @
              [\<lparr>url = u, title = pageTitle p0, description = metaDescription p0,
                content = innerText p0, html = pageHtml p0, crawledAt = clock p0\<rparr>],
            expanded := expanded st @ [(u, k)]\<rparr>"
    have new: "\<And>x i. (x, i) \<in> set ?new \<Longrightarrow> i = Suc k" by auto
    have seed': "(seed, 0) \<in> set (rest @ ?new) \<or> (seed, 0) \<in> set (fetched st @ [(u, k)]) \<or>
             \<not> admitted w opts baseUrl robotsRules seed"
      using sd q by auto
    have sorted': "sorted (map snd (rest @ ?new))"
      using so' hi by (auto simp: sorted_append comp_def sorted_map_const)
    have rn: "k \<le> i \<and> i \<le> Suc k" if "(x, i) \<in> set (rest @ ?new)" for x i
    proof (cases "(x, i) \<in> set rest")
      case True
      with lo hi show ?thesis by blast
    next
      case False
      with that have "(x, i) \<in> set ?new" by simp
      from new [OF this] show ?thesis by simp
    qed
    have fq': "j \<le> i" if "(x, i) \<in> set (rest @ ?new)" "(y, j) \<in> set (fetched st @ [(u, k)])"
      for x i y j
      using rn [OF that(1)] fk1 [OF that(2)] by simp
    have sp': "i \<le> Suc j" if "(x, i) \<in> set (rest @ ?new)" "(y, j) \<in> set (rest @ ?new)"
      for x i y j
      using rn [OF that(1)] rn [OF that(2)] by simp
    have cl': "(\<exists>k'\<le>Suc j. (x, k') \<in> set (fetched st @ [(u, k)])) \<or>
                 \<not> admitted w opts baseUrl robotsRules x \<or> (x, Suc j) \<in> set (rest @ ?new)"
      if m: "(y, j) \<in> set (fetched st @ [(u, k)])" and "j < depth opts"
        and r: "render w y = Rendered p' (Some hrefs')" and x: "x \<in> set hrefs'"
      for x y j p' hrefs'
    proof (cases "(y, j) \<in> set (fetched st)")
      case True
      from cl_fetch [OF True that(2) r x] show ?thesis by auto
    next
      case False
      with m have yj: "y = u" "j = k" by auto
      with r expand(3) have hh: "hrefs' = hrefs0" by simp
      show ?thesis
      proof (cases "x \<in> set (visited st @ [u])")
        case True
        then consider "x = u" | "x \<in> set (visited st)" by auto
        then show ?thesis
        proof cases
          case 1
          then have "(x, k) \<in> set (fetched st @ [(u, k)])" by simp
          moreover from yj have "k \<le> Suc j" by simp
          ultimately show ?thesis by blast
        next
          case 2
          with v obtain k' where k': "(x, k') \<in> set (fetched st)" by auto
          with fk have "k' \<le> k" by blast
          with yj have "k' \<le> Suc j" by simp
          moreover from k' have "(x, k') \<in> set (fetched st @ [(u, k)])" by simp
          ultimately show ?thesis by blast
        qed
      next
        case False
        with x hh have "(x, Suc k) \<in> set ?new" by auto
        with yj show ?thesis by auto
      qed
    qed
    show ?thesis
      unfolding expand(5)
    proof (rule bfs_invI)
      show "sorted (map snd (queue ?st'))" using sorted' by simp
    next
      fix x i y j assume "(x, i) \<in> set (queue ?st')" "(y, j) \<in> set (fetched ?st')"
      with fq' [of x i y j] show "j \<le> i" by simp
    next
      fix x i y j assume "(x, i) \<in> set (queue ?st')" "(y, j) \<in> set (queue ?st')"
      with sp' [of x i y j] show "i \<le> Suc j" by simp
    next
      show "(seed, 0) \<in> set (queue ?st') \<or> (seed, 0) \<in> set (fetched ?st') \<or>
         \<not> admitted w opts baseUrl robotsRules seed"
        using seed' by simp
    next
      fix y j p hrefs x
      assume "(y, j) \<in> set (fetched ?st')" "j < depth opts"
        "render w y = Rendered p (Some hrefs)" "x \<in> set hrefs"
      with cl' [of y j p hrefs x]
      show "(\<exists>k\<le>Suc j. (x, k) \<in> set (fetched ?st')) \<or>
            \<not> admitted w opts baseUrl robotsRules x \<or> (x, Suc j) \<in> set (queue ?st')"
        by simp
    qed
  qed
qed

lemma invariants_crawl_run:
  "trace_inv w opts baseUrl (load_robots w opts baseUrl) seed (crawl_run w seed opts baseUrl) \<and>
   bfs_inv w opts baseUrl (load_robots w opts baseUrl) seed (crawl_run w seed opts baseUrl)"
  unfolding crawl_run_def
  by (rule crawl_loop_invariant
        [where P = "\<lambda>s. trace_inv w opts baseUrl (load_robots w opts baseUrl) seed s \<and>
                        bfs_inv w opts baseUrl (load_robots w opts baseUrl) seed s"])
     (auto intro: trace_inv_initial bfs_inv_initial trace_inv_step bfs_inv_step)

lemma crawl_run_no_throw:
  assumes lp: "links_parse w" and sp: "parseURL w seed \<noteq> None"
  shows "thrown (crawl_run w seed opts baseUrl) = None"
proof -
  let ?Q = "\<lambda>s. thrown s = None \<and> (\<forall>(u, k)\<in>set (queue s). parseURL w u \<noteq> None)"
  have "?Q (crawl_run w seed opts baseUrl)"
    unfolding crawl_run_def
  proof (rule crawl_loop_invariant [where P = ?Q])
    show "?Q (initial_state seed)" using sp by (simp add: initial_state_def)
  next
    fix s
    assume Q: "?Q s" and c: "continuing opts s"
    from c obtain u k rest where q: "queue s = (u, k) # rest"
      by (cases "queue s") (auto simp: continuing_def)
    from Q q have pu: "parseURL w u \<noteq> None" by auto
    from q show "?Q (crawl_step w opts baseUrl (load_robots w opts baseUrl) s)"
    proof (cases rule: crawl_step_cases [where w = w and opts = opts and baseUrl = baseUrl
                                           and robotsRules = "load_robots w opts baseUrl"])
      case throw
      with pu show ?thesis by simp
    next
      case (expand p hrefs)
      from lp expand(3) have "\<forall>l\<in>set hrefs. parseURL w l \<noteq> None"
        unfolding links_parse_def by blast
      with Q q show ?thesis unfolding expand(5) by auto
    qed (use Q q in auto)
  qed
  then show ?thesis by simp
qed

lemma links_ofD:
  assumes "u \<in> set (links_of w opts baseUrl robotsRules v)"
  shows "admitted w opts baseUrl robotsRules v \<and>
         (\<exists>p hrefs. render w v = Rendered p (Some hrefs) \<and> u \<in> set hrefs)"
proof (cases "admitted w opts baseUrl robotsRules v")
  case False
  with assms show ?thesis by (simp add: links_of_def)
next
  case True
  show ?thesis
  proof (cases "render w v")
    case RenderError
    with assms True show ?thesis by (simp add: links_of_def)
  next
    case (Rendered p anchors)
    with assms True show ?thesis by (cases anchors) (simp_all add: links_of_def)
  qed
qed

lemma fetched_level:
  assumes bfs: "bfs_inv w opts baseUrl robotsRules seed st"
    and nt: "thrown st = None" and qe: "queue st = []"
  shows "u \<in> set (level w opts baseUrl robotsRules seed k) \<Longrightarrow>
         admitted w opts baseUrl robotsRules u \<Longrightarrow> \<exists>k'\<le>k. (u, k') \<in> set (fetched st)"
proof (induction k arbitrary: u)
  case 0
  with bfs nt qe show ?case
    unfolding bfs_inv_def by auto
next
  case (Suc j)
  from Suc.prems(1) have d: "j < depth opts"
    by (auto split: if_splits)
  with Suc.prems(1) obtain v where v: "v \<in> set (level w opts baseUrl robotsRules seed j)"
    and l: "u \<in> set (links_of w opts baseUrl robotsRules v)"
    by auto
  from links_ofD [OF l] obtain p hrefs where av: "admitted w opts baseUrl robotsRules v"
    and r: "render w v = Rendered p (Some hrefs)" and u: "u \<in> set hrefs"
    by blast
  from Suc.IH [OF v av] obtain j' where j': "j' \<le> j" and m: "(v, j') \<in> set (fetched st)"
    by blast
  from j' d have d': "j' < depth opts" by simp
  from bfs nt have "\<forall>(v, j)\<in>set (fetched st). j < depth opts \<longrightarrow>
         (\<forall>p hrefs. render w v = Rendered p (Some hrefs) \<longrightarrow>
            (\<forall>u\<in>set hrefs. (\<exists>k\<le>Suc j. (u, k) \<in> set (fetched st)) \<or>
                            \<not> admitted w opts baseUrl robotsRules u \<or>
                            (u, Suc j) \<in> set (queue st)))"
    unfolding bfs_inv_def by blast
  with m d' r u Suc.prems(2) qe
  obtain k' where "k' \<le> Suc j'" "(u, k') \<in> set (fetched st)" by fastforce
  with j' show ?case by (intro exI [of _ k']) simp
qed

lemma discoverable_in_results:
  assumes tr: "trace_inv w opts baseUrl robotsRules seed st"
    and bfs: "bfs_inv w opts baseUrl robotsRules seed st"
    and nt: "thrown st = None" and qe: "queue st = []"
    and d: "discoverable w opts baseUrl robotsRules seed u"
  shows "u \<in> set (map url (results st))"
proof -
  from d obtain k where "u \<in> set (level w opts baseUrl robotsRules seed k)"
    and a: "admitted w opts baseUrl robotsRules u" and r: "render w u \<noteq> RenderError"
    unfolding discoverable_def list_ex_iff by blast
  from fetched_level [OF bfs nt qe this(1) a]
  obtain k' where "(u, k') \<in> set (fetched st)" by blast
  moreover from tr have "\<forall>(u, k)\<in>set (fetched st). render w u \<noteq> RenderError \<longrightarrow>
                           u \<in> set (map url (results st))"
    unfolding trace_inv_def by blast
  ultimately show ?thesis using r by blast
qed

text \<open>
  C6. A crawl that returns gives at most \<open>maxPages\<close> page records, and exactly
  \<open>maxPages\<close> when there are at least that many distinct discoverable pages (admitted
  by the robots and host checks, rendered by the browser, and linked from the start
  address within the depth through admitted pages whose links could be read). It does return when the start address
  parses and the links of the site parse.
\<close>

theorem crawl_page_ceiling:
  "(crawlWebsite w seed opts = Inr pages \<longrightarrow>
      length pages \<le> maxPages opts \<and>
      (\<forall>baseUrl ds. parseURL w seed = Some baseUrl \<and> distinct ds \<and> maxPages opts \<le> length ds \<and>
         (\<forall>u\<in>set ds. discoverable w opts baseUrl (load_robots w opts baseUrl) seed u)
         \<longrightarrow> length pages = maxPages opts)) \<and>
   (parseURL w seed \<noteq> None \<and> links_parse w \<longrightarrow> (\<exists>ps. crawlWebsite w seed opts = Inr ps))"
proof (intro conjI impI allI)
  assume "parseURL w seed \<noteq> None \<and> links_parse w"
  then obtain baseUrl where b: "parseURL w seed = Some baseUrl" and lp: "links_parse w" by auto
  from crawl_run_no_throw [OF lp, of seed opts baseUrl] b
  show "\<exists>ps. crawlWebsite w seed opts = Inr ps"
    by (simp add: crawlWebsite_def Let_def)
next
  assume r: "crawlWebsite w seed opts = Inr pages"
  then obtain baseUrl where b: "parseURL w seed = Some baseUrl"
    and nt: "thrown (crawl_run w seed opts baseUrl) = None"
    and pg: "pages = results (crawl_run w seed opts baseUrl)"
    by (auto simp: crawlWebsite_def Let_def split: option.splits)
  from invariants_crawl_run [of w opts baseUrl seed] pg
  show "length pages \<le> maxPages opts"
    unfolding trace_inv_def by blast
next
  fix baseUrl ds
  assume r: "crawlWebsite w seed opts = Inr pages"
    and h: "parseURL w seed = Some baseUrl \<and> distinct ds \<and> maxPages opts \<le> length ds \<and>
         (\<forall>u\<in>set ds. discoverable w opts baseUrl (load_robots w opts baseUrl) seed u)"
  let ?st = "crawl_run w seed opts baseUrl"
  let ?rules = "load_robots w opts baseUrl"
  from r h have nt: "thrown ?st = None" and pg: "pages = results ?st"
    by (auto simp: crawlWebsite_def Let_def split: option.splits)
  from invariants_crawl_run [of w opts baseUrl seed]
  have tr: "trace_inv w opts baseUrl ?rules seed ?st" and bfs: "bfs_inv w opts baseUrl ?rules seed ?st"
    by blast+
  from tr have le: "length (results ?st) \<le> maxPages opts"
    unfolding trace_inv_def by blast
  show "length pages = maxPages opts"
  proof (rule ccontr)
    assume "length pages \<noteq> maxPages opts"
    with le pg have lt: "length (results ?st) < maxPages opts" by simp
    have "\<not> continuing opts ?st"
      unfolding crawl_run_def by (rule crawl_loop_stops)
    with lt nt have qe: "queue ?st = []" by (simp add: continuing_def)
    have "set ds \<subseteq> set (map url (results ?st))"
      using discoverable_in_results [OF tr bfs nt qe] h by blast
    then have "card (set ds) \<le> card (set (map url (results ?st)))"
      by (intro card_mono) auto
    also have "\<dots> \<le> length (map url (results ?st))" by (rule card_length)
    finally have "length ds \<le> length (results ?st)"
      using h by (simp add: distinct_card)
    with lt h show False by simp
  qed
qed

text \<open>
  On the third site with depth 2 and \<open>maxPages = 3\<close>: the start page, \<open>a\<close>, \<open>b\<close>
  and \<open>c\<close> are four discoverable pages, and the crawl returns exactly three records.
\<close>

theorem crawl_page_ceiling_witness:
  "\<exists>pages. crawlWebsite web_diamond (js ''https://site/'') diamond_options = Inr pages \<and>
           length pages = 3"
proof -
  let ?seed = "js ''https://site/''" and ?a = "js ''https://site/a''"
    and ?b = "js ''https://site/b''" and ?c = "js ''https://site/c''"
  let ?rules = "load_robots web_diamond diamond_options site_base"
  have ps: "parseURL web_diamond ?seed = Some site_base" by code_simp
  have pa: "parseURL web_diamond ?a \<noteq> None" by code_simp
  have pb: "parseURL web_diamond ?b \<noteq> None" by code_simp
  have pc: "parseURL web_diamond ?c \<noteq> None" by code_simp
  have lp: "links_parse web_diamond"
    unfolding links_parse_def
  proof (intro allI impI ballI)
    fix v p hrefs u
    assume "render web_diamond v = Rendered p (Some hrefs)" "u \<in> set hrefs"
    then have "u = ?a \<or> u = ?b \<or> u = ?c"
      by (auto simp: web_diamond_def split: if_splits)
    with pa pb pc show "parseURL web_diamond u \<noteq> None" by auto
  qed
  from crawl_page_ceiling [of web_diamond ?seed diamond_options] ps lp
  obtain pages where r: "crawlWebsite web_diamond ?seed diamond_options = Inr pages"
    by auto
  have "list_all (discoverable web_diamond diamond_options site_base ?rules ?seed)
          [?seed, ?a, ?b, ?c]"
    by code_simp
  then have dis: "\<forall>u\<in>set [?seed, ?a, ?b, ?c].
                    discoverable web_diamond diamond_options site_base ?rules ?seed u"
    by (simp only: list_all_iff)
  have dd: "distinct [?seed, ?a, ?b, ?c]" by code_simp
  have mp: "maxPages diamond_options = 3" by (simp add: diamond_options_def)
  from crawl_page_ceiling [of web_diamond ?seed diamond_options pages] r ps dis dd mp
  have "length pages = 3"
    by (auto simp del: distinct.simps set_simps
             dest!: spec [of _ site_base] spec [of _ "[?seed, ?a, ?b, ?c]"])
  with r show ?thesis by blast
qed

section \<open>The per-chunk failures of the synthesis pipeline\<close>

lemma process_chunks_eq:
  "process_chunks gen t chunks i processed =
     processed @ map (chunk_output gen t chunks) [i..<length chunks]"
proof (induction gen t chunks i processed rule: process_chunks.induct)
  case (1 gen t chunks i processedChunks)
  show ?case
  proof (cases "i < length chunks")
    case True
    then have "[i..<length chunks] = i # [i + 1..<length chunks]"
      by (simp add: upt_conv_Cons)
    with True "1.IH" show ?thesis
      by (subst process_chunks.simps) (simp add: chunk_output_def)
  next
    case False
    then show ?thesis by (subst process_chunks.simps) simp
  qed
qed

text \<open>
  C8, as claimed: with three chunks of which the second fails, the result contains the
  outputs for chunks 1 and 3 and the placeholder for chunk 2. With more than one chunk
  \<open>processText\<close> makes a combining call, and when that call succeeds the result is
  its answer alone: here \<open>merged\<close>, which contains neither the placeholder nor the
  first output.
\<close>

theorem synthesize_loses_placeholder:
  "gen_second_fails 0 (chunk_prompt (js ''summarize'') (three_chunks ! 0)) = Inr (js ''first'') \<and>
   gen_second_fails 1 (chunk_prompt (js ''summarize'') (three_chunks ! 1)) = Inl (js ''overloaded'') \<and>
   gen_second_fails 2 (chunk_prompt (js ''summarize'') (three_chunks ! 2)) = Inr (js ''third'') \<and>
   synthesize gen_second_fails (js ''summarize'') three_chunks = js ''merged'' \<and>
   \<not> contains_text (synthesize gen_second_fails (js ''summarize'') three_chunks)
        (error_placeholder 2 (js ''overloaded'')) \<and>
   \<not> contains_text (synthesize gen_second_fails (js ''summarize'') three_chunks) (js ''first'')"
  by code_simp

text \<open>
  C8, amended: the loop never throws and pushes one output per chunk, in order: the
  generated text, or for a failed call the placeholder
  \<open>[Error processing chunk n: message]\<close> with the number of the chunk. The result
  is the outputs joined by blank lines, unless there is more than one chunk and the
  combining call succeeds, in which case it is the answer of that call. With three
  chunks of which the second fails, the outputs are the first text, the placeholder for
  chunk 2 and the third text, and if the combining call fails the result is these three
  joined.
\<close>

theorem synthesize_placeholders:
  "length (process_chunks gen t chunks 0 []) = length chunks \<and>
   (\<forall>i<length chunks.
      process_chunks gen t chunks 0 [] ! i =
        (case gen i (chunk_prompt t (chunks ! i)) of
           Inr text \<Rightarrow> text
         | Inl message \<Rightarrow> error_placeholder (i + 1) message)) \<and>
   synthesize gen t chunks =
     (if 1 < length chunks then
        (case gen (length chunks) (combining_prompt (join [LF, LF] (process_chunks gen t chunks 0 []))) of
           Inr text \<Rightarrow> text
         | Inl message \<Rightarrow> join [LF, LF] (process_chunks gen t chunks 0 []))
      else join [LF, LF] (process_chunks gen t chunks 0 [])) \<and>
   (\<forall>c1 c2 c3 a m b.
      chunks = [c1, c2, c3] \<and> gen 0 (chunk_prompt t c1) = Inr a \<and>
      gen 1 (chunk_prompt t c2) = Inl m \<and> gen 2 (chunk_prompt t c3) = Inr b \<longrightarrow>
      process_chunks gen t chunks 0 [] = [a, error_placeholder 2 m, b] \<and>
      ((\<exists>e. gen 3 (combining_prompt (a @ [LF, LF] @ error_placeholder 2 m @ [LF, LF] @ b)) = Inl e) \<longrightarrow>
         synthesize gen t chunks = a @ [LF, LF] @ error_placeholder 2 m @ [LF, LF] @ b))"
proof (intro conjI allI impI)
  show "length (process_chunks gen t chunks 0 []) = length chunks"
    by (simp add: process_chunks_eq del: process_chunks.simps)
next
  fix i assume "i < length chunks"
  then show "process_chunks gen t chunks 0 [] ! i =
        (case gen i (chunk_prompt t (chunks ! i)) of
           Inr text \<Rightarrow> text
         | Inl message \<Rightarrow> error_placeholder (i + 1) message)"
    by (simp add: process_chunks_eq chunk_output_def del: process_chunks.simps)
next
  show "synthesize gen t chunks =
     (if 1 < length chunks then
        (case gen (length chunks) (combining_prompt (join [LF, LF] (process_chunks gen t chunks 0 []))) of
           Inr text \<Rightarrow> text
         | Inl message \<Rightarrow> join [LF, LF] (process_chunks gen t chunks 0 []))
      else join [LF, LF] (process_chunks gen t chunks 0 []))"
    by (simp add: synthesize_def Let_def process_chunks_eq del: process_chunks.simps
             split: sum.splits)
next
  fix c1 c2 c3 a m b
  assume h: "chunks = [c1, c2, c3] \<and> gen 0 (chunk_prompt t c1) = Inr a \<and>
      gen 1 (chunk_prompt t c2) = Inl m \<and> gen 2 (chunk_prompt t c3) = Inr b"
  have u: "[0..<3] = [0, 1, 2]" by (simp add: upt_rec)
  from h u show p: "process_chunks gen t chunks 0 [] = [a, error_placeholder 2 m, b]"
    by (simp add: process_chunks_eq chunk_output_def eval_nat_numeral del: process_chunks.simps)
  assume "\<exists>e. gen 3 (combining_prompt (a @ [LF, LF] @ error_placeholder 2 m @ [LF, LF] @ b)) = Inl e"
  then obtain e where
    e: "gen 3 (combining_prompt (a @ [LF, LF] @ error_placeholder 2 m @ [LF, LF] @ b)) = Inl e"
    by blast
  from h have l: "length chunks = 3" by simp
  have j: "join [LF, LF] [a, error_placeholder 2 m, b] =
             a @ [LF, LF] @ error_placeholder 2 m @ [LF, LF] @ b"
    by simp
  have "synthesize gen t chunks =
          (case gen 3 (combining_prompt (join [LF, LF] [a, error_placeholder 2 m, b])) of
             Inr text \<Rightarrow> text
           | Inl message \<Rightarrow> join [LF, LF] [a, error_placeholder 2 m, b])"
    unfolding synthesize_def Let_def p l by simp
  also have "\<dots> = a @ [LF, LF] @ error_placeholder 2 m @ [LF, LF] @ b"
    unfolding j e by simp
  finally show "synthesize gen t chunks = a @ [LF, LF] @ error_placeholder 2 m @ [LF, LF] @ b" .
qed

text \<open>With the service that fails on the second and on the combining call.\<close>

theorem synthesize_placeholders_witness:
  "process_chunks gen_combine_fails (js ''summarize'') three_chunks 0 [] =
     [js ''first'', js ''[Error processing chunk 2: overloaded]'', js ''third''] \<and>
   synthesize gen_combine_fails (js ''summarize'') three_chunks =
     js ''first'' @ [LF, LF] @ js ''[Error processing chunk 2: overloaded]'' @ [LF, LF] @ js ''third''"
proof -
  have e: "error_placeholder 2 (js ''overloaded'') = js ''[Error processing chunk 2: overloaded]''"
    by code_simp
  have c: "three_chunks = [js ''one'', js ''two'', js ''three'']" by (simp add: three_chunks_def)
  have g: "\<And>p. gen_combine_fails 0 p = Inr (js ''first'')"
      "\<And>p. gen_combine_fails 1 p = Inl (js ''overloaded'')"
      "\<And>p. gen_combine_fails 2 p = Inr (js ''third'')"
      "\<And>p. gen_combine_fails 3 p = Inl (js ''overloaded'')"
    by (simp_all add: gen_combine_fails_def)
  from synthesize_placeholders [of gen_combine_fails "js ''summarize''" three_chunks] c g e
  show ?thesis by (auto simp del: upt_Suc process_chunks.simps)
qed

end
